theory Spec2Isabelle
  imports Main "HOL-Library.Word"
begin

section \<open>The gather collective of Boost.MPI (collectives/gather.hpp)\<close>

text \<open>
  The header defines the offset computation \<^verbatim>\<open>detail::sizes2offset\<close>, four overloads of
  \<^verbatim>\<open>detail::gather_impl\<close> (root and non-root, for types with and without an MPI datatype)
  and six public overloads of \<^verbatim>\<open>gather\<close>. Every function is run by one process of the
  group; what the other processes contribute reaches it through the transport.

  Conventions of the embedding:
  \<^item> a \<^verbatim>\<open>std::vector<T>\<close> and the array behind a \<^verbatim>\<open>T*\<close> are lists; a \<^verbatim>\<open>T*\<close> is
    \<open>'a list option\<close>, \<open>None\<close> being the null pointer;
  \<^item> a C++ \<^verbatim>\<open>int\<close> is a HOL \<open>int\<close> that must stay within \<open>[INT_MIN, INT_MAX]\<close> (32 bits);
    counts, ranks and indices, which the library never makes negative, are \<open>nat\<close>;
    \<^verbatim>\<open>std::size_t\<close> is a \<open>nat\<close> below \<open>2 ^ 64\<close>, with the wrap-around written out;
  \<^item> whatever ends a call early is a value of \<open>error\<close>: a failed assertion, an exception,
    and the undefined behaviours the code can reach (an access outside an array, a signed
    overflow, a write through the null pointer);
  \<^item> the memory a call writes and the calls it makes to the transport and to the decoder
    are returned with its outcome, also when the outcome is an error.
\<close>

subsection \<open>Machine integers and errors\<close>

type_synonym byte = "8 word"

datatype error =
    AssertionFailed
  | OutOfBounds
  | NullPointer
  | SignedOverflow
  | LengthError
  | Mismatch
  | MpiException int
  | ArchiveException

definition INT_MAX :: int where
  "INT_MAX = 2147483647"

definition INT_MIN :: int where
  "INT_MIN = - 2147483648"

definition in_int_range :: "int \<Rightarrow> bool" where
  "in_int_range x = (INT_MIN \<le> x \<and> x \<le> INT_MAX)"

text \<open>Subtraction of \<^verbatim>\<open>std::size_t\<close> values: modulo \<open>2 ^ 64\<close>.\<close>

definition size_t_sub :: "nat \<Rightarrow> nat \<Rightarrow> nat" where
  "size_t_sub a b = (a + 2 ^ 64 - b mod 2 ^ 64) mod 2 ^ 64"

text \<open>The conversion \<^verbatim>\<open>int(oa.size())\<close> of a \<^verbatim>\<open>std::size_t\<close>: the low 32 bits, read as
  two's complement.\<close>

definition int_of_size_t :: "nat \<Rightarrow> int" where
  "int_of_size_t s = signed_take_bit 31 (int s)"

subsection \<open>Offset computation: \<^verbatim>\<open>detail::sizes2offset\<close>\<close>

text \<open>
  \<^verbatim>\<open>
  assert(offsets.size() == sizes.size());
  offsets[0] = 0;
  for(int i = 0; i < sizes.size()-1; ++i) {
    offsets[i+1] = offsets[i] + sizes[i];
  }
  \<close>
  The loop bound \<^verbatim>\<open>sizes.size()-1\<close> is unsigned, and \<^verbatim>\<open>i\<close> is converted to
  \<^verbatim>\<open>std::size_t\<close> for the comparison. \<open>ndebug\<close> says whether \<^verbatim>\<open>NDEBUG\<close> is defined, which
  compiles the assertions out.
\<close>

function sizes2offset_loop :: "nat \<Rightarrow> int list \<Rightarrow> int list \<Rightarrow> error + int list" where
  "sizes2offset_loop i sizes offsets =
     (if i < size_t_sub (length sizes) 1 then
        (if length offsets \<le> i + 1 \<or> length sizes \<le> i then Inl OutOfBounds
         else if \<not> in_int_range (offsets ! i + sizes ! i) then Inl SignedOverflow
         else if INT_MAX \<le> int i then Inl SignedOverflow
         else sizes2offset_loop (i + 1) sizes (offsets[i + 1 := offsets ! i + sizes ! i]))
      else Inr offsets)"
  by pat_completeness auto
termination
  by (relation "measure (\<lambda>(i, sizes, offsets). length offsets - i)") auto

declare sizes2offset_loop.simps [simp del]

definition sizes2offset :: "bool \<Rightarrow> int list \<Rightarrow> int list \<Rightarrow> error + int list" where
  "sizes2offset ndebug sizes offsets =
     (if \<not> ndebug \<and> length offsets \<noteq> length sizes then Inl AssertionFailed
      else if length offsets = 0 then Inl OutOfBounds
      else sizes2offset_loop 0 sizes (offsets[0 := 0]))"

text \<open>The byte segment of sender \<open>k\<close> in the receive buffer, as the spec words it.\<close>

definition segment :: "int list \<Rightarrow> int list \<Rightarrow> nat \<Rightarrow> int set" where
  "segment offsets sizes k = {offsets ! k ..< offsets ! k + sizes ! k}"

subsection \<open>The communicator, the transport and the codec\<close>

text \<open>
  \<^verbatim>\<open>communicator\<close>, \<^verbatim>\<open>MPI_Gather\<close>, \<^verbatim>\<open>MPI_Gatherv\<close>, \<^verbatim>\<open>BOOST_MPI_CHECK_RESULT\<close>,
  \<^verbatim>\<open>packed_oarchive\<close> and \<^verbatim>\<open>packed_iarchive\<close> are declared in other headers. The header
  uses of a communicator its rank and its size only.
\<close>

record communicator =
  comm_rank :: nat
  comm_size :: nat

definition MPI_SUCCESS :: int where
  "MPI_SUCCESS = 0"

text \<open>
  What a process does to its collaborators, in program order: a call of \<^verbatim>\<open>MPI_Gather\<close>
  (the elements it sends, the count, the root), a call of \<^verbatim>\<open>MPI_Gatherv\<close> (the bytes it
  sends, the send count, the root), and one \<^verbatim>\<open>ia >> x\<close> (the position the decoder reads
  at).
\<close>

datatype 'b event =
    Gather_call "'b list" nat nat
  | Gatherv_call "byte list" int nat
  | Load_call nat

text \<open>
  Modelled from the spec: the macro \<^verbatim>\<open>BOOST_MPI_CHECK_RESULT\<close> of exception.hpp. A status
  other than success is thrown as an exception that carries the status code.
\<close>

definition BOOST_MPI_CHECK_RESULT :: "int \<Rightarrow> error option" where
  "BOOST_MPI_CHECK_RESULT rc = (if rc \<noteq> MPI_SUCCESS then Some (MpiException rc) else None)"

text \<open>
  A write of the elements \<open>xs\<close> through the pointer \<open>p\<close> at index \<open>pos\<close>. Nothing is
  accessed when \<open>xs\<close> is empty.
\<close>

definition store :: "'b list option \<Rightarrow> nat \<Rightarrow> 'b list \<Rightarrow> error + 'b list option" where
  "store p pos xs =
     (if xs = [] then Inr p
      else case p of
        None \<Rightarrow> Inl NullPointer
      | Some buf \<Rightarrow>
          if length buf < pos + length xs then Inl OutOfBounds
          else Inr (Some (take pos buf @ xs @ drop (pos + length xs) buf)))"

text \<open>
  Modelled from the spec: the fixed-size bulk transfer (\<^verbatim>\<open>MPI_Gather\<close>). The environment of
  one call is the status code the transport reports and, for every other rank, what that
  rank passes to its matching call: the elements it sends, its count and its root
  (\<open>None\<close> when it makes no matching call). The root receives, at indices
  \<open>[k * n, k * n + n)\<close>, the \<open>n\<close> elements of rank \<open>k\<close>. Participants that disagree on
  the count or the root are outside the transport's contract: \<open>Mismatch\<close>. A failed
  transfer is modelled as leaving the receive buffer as it was.
\<close>

record 'b gather_env =
  gather_status :: int
  gather_peers :: "nat \<Rightarrow> ('b list \<times> nat \<times> nat) option"

definition gather_block :: "'b gather_env \<Rightarrow> nat \<Rightarrow> nat \<Rightarrow> nat \<Rightarrow> 'b list option" where
  "gather_block env n root k =
     (case gather_peers env k of
        None \<Rightarrow> None
      | Some (xs, n', root') \<Rightarrow>
          if n' = n \<and> root' = root \<and> length xs = n then Some xs else None)"

definition MPI_Gather ::
  "'b gather_env \<Rightarrow> communicator \<Rightarrow> 'b list \<Rightarrow> nat \<Rightarrow> 'b list option \<Rightarrow> nat \<Rightarrow>
   error + int \<times> 'b list option" where
  "MPI_Gather env comm sendbuf n recvbuf root =
     (if length sendbuf < n then Inl OutOfBounds
      else if gather_status env \<noteq> MPI_SUCCESS then Inr (gather_status env, recvbuf)
      else if comm_rank comm \<noteq> root then Inr (MPI_SUCCESS, recvbuf)
      else case those (map (\<lambda>k. if k = root then Some (take n sendbuf)
                                 else gather_block env n root k) [0..<comm_size comm]) of
        None \<Rightarrow> Inl Mismatch
      | Some blocks \<Rightarrow>
          (case store recvbuf 0 (concat blocks) of
             Inl e \<Rightarrow> Inl e
           | Inr recvbuf' \<Rightarrow> Inr (MPI_SUCCESS, recvbuf')))"

text \<open>
  Modelled from the spec: the variable-length bulk transfer (\<^verbatim>\<open>MPI_Gatherv\<close>) of bytes.
  Rank \<open>k\<close> contributes \<open>recvcounts[k]\<close> bytes, which land at
  \<open>[displs[k], displs[k] + recvcounts[k])\<close> of the root's receive buffer; the ranks are
  served in increasing order. A rank that sends another number of bytes than the root
  expects, a negative count and a negative displacement are outside the contract.
\<close>

record gatherv_env =
  gatherv_status :: int
  gatherv_peers :: "nat \<Rightarrow> (byte list \<times> int \<times> nat) option"

definition gatherv_block :: "gatherv_env \<Rightarrow> nat \<Rightarrow> nat \<Rightarrow> byte list option" where
  "gatherv_block env root k =
     (case gatherv_peers env k of
        None \<Rightarrow> None
      | Some (bs, c, root') \<Rightarrow>
          if root' = root \<and> c = int (length bs) then Some bs else None)"

fun gatherv_place ::
  "(nat \<Rightarrow> byte list option) \<Rightarrow> int list \<Rightarrow> int list \<Rightarrow> nat list \<Rightarrow> byte list \<Rightarrow>
   error + byte list" where
  "gatherv_place block recvcounts displs [] buf = Inr buf"
| "gatherv_place block recvcounts displs (k # ks) buf =
     (if length recvcounts \<le> k \<or> length displs \<le> k then Inl OutOfBounds
      else case block k of
        None \<Rightarrow> Inl Mismatch
      | Some bs \<Rightarrow>
          if recvcounts ! k \<noteq> int (length bs) \<or> displs ! k < 0 then Inl Mismatch
          else if length buf < nat (displs ! k) + length bs then Inl OutOfBounds
          else gatherv_place block recvcounts displs ks
                 (take (nat (displs ! k)) buf @ bs @ drop (nat (displs ! k) + length bs) buf))"

definition MPI_Gatherv ::
  "gatherv_env \<Rightarrow> communicator \<Rightarrow> byte list \<Rightarrow> int \<Rightarrow> byte list \<Rightarrow> int list \<Rightarrow> int list \<Rightarrow>
   nat \<Rightarrow> error + int \<times> byte list" where
  "MPI_Gatherv env comm sendbuf sendcount recvbuf recvcounts displs root =
     (if sendcount < 0 then Inl Mismatch
      else if int (length sendbuf) < sendcount then Inl OutOfBounds
      else if gatherv_status env \<noteq> MPI_SUCCESS then Inr (gatherv_status env, recvbuf)
      else if comm_rank comm \<noteq> root then Inr (MPI_SUCCESS, recvbuf)
      else case gatherv_place
                  (\<lambda>k. if k = root then Some (take (nat sendcount) sendbuf)
                       else gatherv_block env root k)
                  recvcounts displs [0..<comm_size comm] recvbuf of
        Inl e \<Rightarrow> Inl e
      | Inr recvbuf' \<Rightarrow> Inr (MPI_SUCCESS, recvbuf'))"

text \<open>
  Modelled from the spec: the serialization codec behind \<^verbatim>\<open>packed_oarchive\<close> and
  \<^verbatim>\<open>packed_iarchive\<close>. \<^verbatim>\<open>oa << v\<close> appends \<open>encode v\<close> to the archive's buffer;
  \<^verbatim>\<open>ia >> x\<close> decodes one value at the archive's position and moves the position on, or
  throws. The contract the spec assumes of it is \<open>codec_contract\<close>: decoding where a value
  was encoded gives the value back and stops where its bytes end.
\<close>

record 'a codec =
  encode :: "'a \<Rightarrow> byte list"
  decode :: "byte list \<Rightarrow> nat \<Rightarrow> ('a \<times> nat) option"


text \<open>The conversion of an \<^verbatim>\<open>int\<close> to \<^verbatim>\<open>std::size_t\<close> (the position handed to the input
  archive).\<close>

definition size_t_of_int :: "int \<Rightarrow> nat" where
  "size_t_of_int x = nat (x mod 2 ^ 64)"

subsection \<open>Direct transfer: \<^verbatim>\<open>gather_impl\<close> for types with an MPI datatype\<close>

text \<open>
  \<^verbatim>\<open>
  MPI_Datatype type = get_mpi_datatype<T>(*in_values);
  BOOST_MPI_CHECK_RESULT(MPI_Gather, (const_cast<T*>(in_values), n, type,
                                      out_values, n, type, root, comm));
  \<close>
  and, at a non-root, the same call with the receive buffer \<^verbatim>\<open>0\<close>. A call returns the
  exception or undefined behaviour that ended it (\<open>None\<close> when it completed), the memory
  behind \<^verbatim>\<open>out_values\<close>, and its events.
\<close>

definition gather_impl_true_root ::
  "'a gather_env \<Rightarrow> communicator \<Rightarrow> 'a list \<Rightarrow> nat \<Rightarrow> 'a list option \<Rightarrow> nat \<Rightarrow>
   error option \<times> 'a list option \<times> 'a event list" where
  "gather_impl_true_root env comm in_values n out_values root =
     (case MPI_Gather env comm in_values n out_values root of
        Inl e \<Rightarrow> (Some e, out_values, [])
      | Inr (rc, out_values') \<Rightarrow>
          (BOOST_MPI_CHECK_RESULT rc, out_values', [Gather_call (take n in_values) n root]))"

definition gather_impl_true_nonroot ::
  "'a gather_env \<Rightarrow> communicator \<Rightarrow> 'a list \<Rightarrow> nat \<Rightarrow> nat \<Rightarrow>
   error option \<times> 'a event list" where
  "gather_impl_true_nonroot env comm in_values n root =
     (case MPI_Gather env comm in_values n None root of
        Inl e \<Rightarrow> (Some e, [])
      | Inr (rc, _) \<Rightarrow> (BOOST_MPI_CHECK_RESULT rc, [Gather_call (take n in_values) n root]))"

subsection \<open>The public overloads\<close>

text \<open>
  The tag \<^verbatim>\<open>is_mpi_datatype<T>()\<close> selects, by overload resolution, the pair of
  \<^verbatim>\<open>gather_impl\<close> functions a public overload calls; the tag is modelled as that pair.
  \<open>'e\<close> is the environment the pair runs in, \<open>'b\<close> the type of the elements it hands to
  \<^verbatim>\<open>MPI_Gather\<close>.
\<close>

record ('a, 'e, 'b) is_mpi_datatype =
  impl_root ::
    "'e \<Rightarrow> communicator \<Rightarrow> 'a list \<Rightarrow> nat \<Rightarrow> 'a list option \<Rightarrow> nat \<Rightarrow>
     error option \<times> 'a list option \<times> 'b event list"
  impl_nonroot ::
    "'e \<Rightarrow> communicator \<Rightarrow> 'a list \<Rightarrow> nat \<Rightarrow> nat \<Rightarrow> error option \<times> 'b event list"

definition mpl_true :: "('a, 'a gather_env, 'a) is_mpi_datatype" where
  "mpl_true = \<lparr>impl_root = gather_impl_true_root, impl_nonroot = gather_impl_true_nonroot\<rparr>"

text \<open>\<^verbatim>\<open>gather(comm, in_value, T* out_values, root)\<close>\<close>

definition gather_scalar_ptr ::
  "('a, 'e, 'b) is_mpi_datatype \<Rightarrow> 'e \<Rightarrow> communicator \<Rightarrow> 'a \<Rightarrow> 'a list option \<Rightarrow> nat \<Rightarrow>
   error option \<times> 'a list option \<times> 'b event list" where
  "gather_scalar_ptr tag env comm in_value out_values root =
     (if comm_rank comm = root then impl_root tag env comm [in_value] 1 out_values root
      else case impl_nonroot tag env comm [in_value] 1 root of
        (e, tr) \<Rightarrow> (e, out_values, tr))"

text \<open>\<^verbatim>\<open>gather(comm, in_value, root)\<close>, with its \<^verbatim>\<open>BOOST_ASSERT(comm.rank() != root)\<close>\<close>

definition gather_scalar_nonroot ::
  "bool \<Rightarrow> ('a, 'e, 'b) is_mpi_datatype \<Rightarrow> 'e \<Rightarrow> communicator \<Rightarrow> 'a \<Rightarrow> nat \<Rightarrow>
   error option \<times> 'b event list" where
  "gather_scalar_nonroot ndebug tag env comm in_value root =
     (if \<not> ndebug \<and> \<not> comm_rank comm \<noteq> root then (Some AssertionFailed, [])
      else impl_nonroot tag env comm [in_value] 1 root)"

text \<open>\<^verbatim>\<open>std::vector<T>::resize\<close>: new elements are value-initialised (\<open>dflt\<close> is \<^verbatim>\<open>T()\<close>).\<close>

definition resize :: "'a \<Rightarrow> 'a list \<Rightarrow> nat \<Rightarrow> 'a list" where
  "resize dflt v m = take m v @ replicate (m - length v) dflt"

text \<open>\<^verbatim>\<open>&v[0]\<close>: \<^verbatim>\<open>operator[]\<close> needs an element at the index, so on an empty vector
  the expression is an access outside the array, as \<^verbatim>\<open>offsets[0]\<close> is in
  \<^verbatim>\<open>sizes2offset\<close>. On a vector with elements it is the pointer to them.\<close>

definition front_address :: "'a list \<Rightarrow> error + 'a list option" where
  "front_address v = (if v = [] then Inl OutOfBounds else Inr (Some v))"

text \<open>The elements of a vector after a call that was handed \<^verbatim>\<open>&v[0]\<close>: what the memory
  behind that pointer holds.\<close>

definition vector_after :: "'a list \<Rightarrow> 'a list option \<Rightarrow> 'a list" where
  "vector_after v p = (case p of None \<Rightarrow> v | Some buf \<Rightarrow> buf)"

text \<open>\<^verbatim>\<open>gather(comm, in_value, std::vector<T>& out_values, root)\<close>\<close>

definition gather_scalar_vec ::
  "bool \<Rightarrow> ('a, 'e, 'b) is_mpi_datatype \<Rightarrow> 'a \<Rightarrow> 'e \<Rightarrow> communicator \<Rightarrow> 'a \<Rightarrow> 'a list \<Rightarrow> nat \<Rightarrow>
   error option \<times> 'a list \<times> 'b event list" where
  "gather_scalar_vec ndebug tag dflt env comm in_value out_values root =
     (if comm_rank comm = root then
        (let resized = resize dflt out_values (comm_size comm) in
         case front_address resized of
           Inl e \<Rightarrow> (Some e, resized, [])
         | Inr front \<Rightarrow>
             (case gather_scalar_ptr tag env comm in_value front root of
                (e, p, tr) \<Rightarrow> (e, vector_after resized p, tr)))
      else case gather_scalar_nonroot ndebug tag env comm in_value root of
        (e, tr) \<Rightarrow> (e, out_values, tr))"

text \<open>\<^verbatim>\<open>gather(comm, in_values, n, T* out_values, root)\<close>\<close>

definition gather_array_ptr ::
  "('a, 'e, 'b) is_mpi_datatype \<Rightarrow> 'e \<Rightarrow> communicator \<Rightarrow> 'a list \<Rightarrow> nat \<Rightarrow> 'a list option \<Rightarrow>
   nat \<Rightarrow> error option \<times> 'a list option \<times> 'b event list" where
  "gather_array_ptr tag env comm in_values n out_values root =
     (if comm_rank comm = root then impl_root tag env comm in_values n out_values root
      else case impl_nonroot tag env comm in_values n root of
        (e, tr) \<Rightarrow> (e, out_values, tr))"

text \<open>\<^verbatim>\<open>gather(comm, in_values, n, root)\<close>, with its \<^verbatim>\<open>BOOST_ASSERT(comm.rank() != root)\<close>\<close>

definition gather_array_nonroot ::
  "bool \<Rightarrow> ('a, 'e, 'b) is_mpi_datatype \<Rightarrow> 'e \<Rightarrow> communicator \<Rightarrow> 'a list \<Rightarrow> nat \<Rightarrow> nat \<Rightarrow>
   error option \<times> 'b event list" where
  "gather_array_nonroot ndebug tag env comm in_values n root =
     (if \<not> ndebug \<and> \<not> comm_rank comm \<noteq> root then (Some AssertionFailed, [])
      else impl_nonroot tag env comm in_values n root)"

text \<open>\<^verbatim>\<open>gather(comm, in_values, n, std::vector<T>& out_values, root)\<close>; the product
  \<^verbatim>\<open>comm.size() * n\<close> is computed in \<^verbatim>\<open>int\<close>.\<close>

definition gather_array_vec ::
  "bool \<Rightarrow> ('a, 'e, 'b) is_mpi_datatype \<Rightarrow> 'a \<Rightarrow> 'e \<Rightarrow> communicator \<Rightarrow> 'a list \<Rightarrow> nat \<Rightarrow>
   'a list \<Rightarrow> nat \<Rightarrow> error option \<times> 'a list \<times> 'b event list" where
  "gather_array_vec ndebug tag dflt env comm in_values n out_values root =
     (if comm_rank comm = root then
        (if \<not> in_int_range (int (comm_size comm) * int n) then (Some SignedOverflow, out_values, [])
         else
           (let resized = resize dflt out_values (comm_size comm * n) in
            case front_address resized of
              Inl e \<Rightarrow> (Some e, resized, [])
            | Inr front \<Rightarrow>
                (case gather_array_ptr tag env comm in_values n front root of
                   (e, p, tr) \<Rightarrow> (e, vector_after resized p, tr))))
      else case gather_array_nonroot ndebug tag env comm in_values n root of
        (e, tr) \<Rightarrow> (e, out_values, tr))"

subsection \<open>Serialized transfer: \<^verbatim>\<open>gather_impl\<close> for types without an MPI datatype\<close>

text \<open>\<^verbatim>\<open>for (int i = 0; i < n; ++i) oa << in_values[i];\<close>\<close>

function save_values :: "'a codec \<Rightarrow> 'a list \<Rightarrow> nat \<Rightarrow> nat \<Rightarrow> byte list \<Rightarrow> error + byte list" where
  "save_values cd in_values i n oa =
     (if i < n then
        (if length in_values \<le> i then Inl OutOfBounds
         else save_values cd in_values (i + 1) n (oa @ encode cd (in_values ! i)))
      else Inr oa)"
  by pat_completeness auto
termination
  by (relation "measure (\<lambda>(cd, in_values, i, n, oa). n - i)") auto

declare save_values.simps [simp del]

text \<open>\<^verbatim>\<open>std::accumulate(asizes.begin(), asizes.end(), 0)\<close>, an addition of \<^verbatim>\<open>int\<close>s.\<close>

fun accumulate :: "int list \<Rightarrow> int \<Rightarrow> error + int" where
  "accumulate [] init = Inr init"
| "accumulate (x # xs) init =
     (if in_int_range (init + x) then accumulate xs (init + x) else Inl SignedOverflow)"

text \<open>
  \<^verbatim>\<open>for (int i = 0; i < n; ++i) ia >> out_values[n*src + i];\<close>
  for the archive \<^verbatim>\<open>ia\<close> at position \<open>pos\<close> of \<open>buf\<close>.
\<close>

function load_values ::
  "'a codec \<Rightarrow> byte list \<Rightarrow> nat \<Rightarrow> nat \<Rightarrow> nat \<Rightarrow> nat \<Rightarrow> 'a list option \<Rightarrow> 'b event list \<Rightarrow>
   error option \<times> 'a list option \<times> 'b event list" where
  "load_values cd buf pos src i n out_values tr =
     (if i < n then
        (if \<not> in_int_range (int n * int src + int i) then (Some SignedOverflow, out_values, tr)
         else case out_values of
           None \<Rightarrow> (Some NullPointer, out_values, tr)
         | Some out \<Rightarrow>
             if length out \<le> n * src + i then (Some OutOfBounds, out_values, tr)
             else (case decode cd buf pos of
                     None \<Rightarrow> (Some ArchiveException, out_values, tr @ [Load_call pos])
                   | Some (v, pos') \<Rightarrow>
                       load_values cd buf pos' src (i + 1) n (Some (out[n * src + i := v]))
                         (tr @ [Load_call pos])))
      else (None, out_values, tr))"
  by pat_completeness auto
termination
  by (relation "measure (\<lambda>(cd, buf, pos, src, i, n, out_values, tr). n - i)") auto

declare load_values.simps [simp del]

text \<open>
  \<^verbatim>\<open>
  for (int src = 0; src < nproc; ++src) {
    if (src == root) {
      std::copy(in_values, in_values + n, out_values + n * src);
    } else {
      packed_iarchive ia(comm,  recv_buffer, boost::archive::no_header, offsets[src]);
      for (int i = 0; i < n; ++i) {
        ia >> out_values[n*src + i];
      }
    }
  }
  \<close>
\<close>

function unpack_loop ::
  "'a codec \<Rightarrow> nat \<Rightarrow> nat \<Rightarrow> byte list \<Rightarrow> int list \<Rightarrow> 'a list \<Rightarrow> nat \<Rightarrow> nat \<Rightarrow>
   'a list option \<Rightarrow> 'b event list \<Rightarrow> error option \<times> 'a list option \<times> 'b event list" where
  "unpack_loop cd nproc root recv_buffer offsets in_values n src out_values tr =
     (if src < nproc then
        (if src = root then
           (if \<not> in_int_range (int n * int src) then (Some SignedOverflow, out_values, tr)
            else if length in_values < n then (Some OutOfBounds, out_values, tr)
            else case store out_values (n * src) (take n in_values) of
              Inl e \<Rightarrow> (Some e, out_values, tr)
            | Inr out_values' \<Rightarrow>
                unpack_loop cd nproc root recv_buffer offsets in_values n (src + 1) out_values' tr)
         else
           (if length offsets \<le> src then (Some OutOfBounds, out_values, tr)
            else case load_values cd recv_buffer (size_t_of_int (offsets ! src)) src 0 n
                        out_values tr of
              (Some e, out_values', tr') \<Rightarrow> (Some e, out_values', tr')
            | (None, out_values', tr') \<Rightarrow>
                unpack_loop cd nproc root recv_buffer offsets in_values n (src + 1) out_values' tr'))
      else (None, out_values, tr))"
  by pat_completeness auto
termination
  by (relation "measure (\<lambda>(cd, nproc, root, recv_buffer, offsets, in_values, n, src, out_values, tr).
        nproc - src)") auto

declare unpack_loop.simps [simp del]

text \<open>The environment of a serialized gather: that of its size exchange and that of its
  payload exchange.\<close>

record ser_env =
  size_exchange :: "int gather_env"
  payload_exchange :: gatherv_env

text \<open>
  \<^verbatim>\<open>gather_impl(comm, in_values, n, out_values, root, mpl::false_)\<close>. The non-root overload
  calls it with the null pointer for \<^verbatim>\<open>out_values\<close>. The value of
  \<^verbatim>\<open>environment::collectives_tag()\<close> is not used. The receive buffer is allocated with
  \<^verbatim>\<open>std::accumulate(...)\<close> elements: a negative \<^verbatim>\<open>int\<close> there is a size no vector can have.
\<close>

definition gather_impl_false ::
  "bool \<Rightarrow> 'a codec \<Rightarrow> ser_env \<Rightarrow> communicator \<Rightarrow> 'a list \<Rightarrow> nat \<Rightarrow> 'a list option \<Rightarrow> nat \<Rightarrow>
   error option \<times> 'a list option \<times> int event list" where
  "gather_impl_false ndebug cd env comm in_values n out_values root =
     (let nproc = comm_size comm in
      case save_values cd in_values 0 n [] of
        Inl e \<Rightarrow> (Some e, out_values, [])
      | Inr oa \<Rightarrow>
     (case gather_scalar_vec ndebug mpl_true 0 (size_exchange env) comm
             (int_of_size_t (length oa)) [] root of
        (Some e, asizes, tr) \<Rightarrow> (Some e, out_values, tr)
      | (None, asizes, tr) \<Rightarrow>
     (case (if comm_rank comm = root then sizes2offset ndebug asizes (replicate nproc 0)
            else Inr (replicate nproc 0)) of
        Inl e \<Rightarrow> (Some e, out_values, tr)
      | Inr offsets \<Rightarrow>
     (case accumulate asizes 0 of
        Inl e \<Rightarrow> (Some e, out_values, tr)
      | Inr total_size \<Rightarrow>
          if total_size < 0 then (Some LengthError, out_values, tr)
          else
     (case MPI_Gatherv (payload_exchange env) comm oa (int_of_size_t (length oa))
             (replicate (nat total_size) 0) asizes offsets root of
        Inl e \<Rightarrow> (Some e, out_values, tr)
      | Inr (rc, recv_buffer) \<Rightarrow>
     (case BOOST_MPI_CHECK_RESULT rc of
        Some e \<Rightarrow>
          (Some e, out_values, tr @ [Gatherv_call oa (int_of_size_t (length oa)) root])
      | None \<Rightarrow>
          if comm_rank comm = root then
            unpack_loop cd nproc root recv_buffer offsets in_values n 0 out_values
              (tr @ [Gatherv_call oa (int_of_size_t (length oa)) root])
          else
            (None, out_values, tr @ [Gatherv_call oa (int_of_size_t (length oa)) root])))))))"

text \<open>\<^verbatim>\<open>gather_impl(comm, in_values, n, root, mpl::false_)\<close>\<close>

definition gather_impl_false_nonroot ::
  "bool \<Rightarrow> 'a codec \<Rightarrow> ser_env \<Rightarrow> communicator \<Rightarrow> 'a list \<Rightarrow> nat \<Rightarrow> nat \<Rightarrow>
   error option \<times> int event list" where
  "gather_impl_false_nonroot ndebug cd env comm in_values n root =
     (case gather_impl_false ndebug cd env comm in_values n None root of
        (e, p, tr) \<Rightarrow> (e, tr))"

definition mpl_false :: "bool \<Rightarrow> 'a codec \<Rightarrow> ('a, ser_env, int) is_mpi_datatype" where
  "mpl_false ndebug cd =
     \<lparr>impl_root = gather_impl_false ndebug cd,
      impl_nonroot = gather_impl_false_nonroot ndebug cd\<rparr>"

subsection \<open>A group of processes\<close>

text \<open>
  The transport matches the calls of the participants. What a rank hands to the transport
  is read off the events of that rank's own run: its first \<^verbatim>\<open>MPI_Gather\<close> and its first
  \<^verbatim>\<open>MPI_Gatherv\<close> call.
\<close>

fun first_gather :: "'b event list \<Rightarrow> ('b list \<times> nat \<times> nat) option" where
  "first_gather [] = None"
| "first_gather (Gather_call xs n root # tr) = Some (xs, n, root)"
| "first_gather (Gatherv_call bs c root # tr) = first_gather tr"
| "first_gather (Load_call pos # tr) = first_gather tr"

fun first_gatherv :: "'b event list \<Rightarrow> (byte list \<times> int \<times> nat) option" where
  "first_gatherv [] = None"
| "first_gatherv (Gather_call xs n root # tr) = first_gatherv tr"
| "first_gatherv (Gatherv_call bs c root # tr) = Some (bs, c, root)"
| "first_gatherv (Load_call pos # tr) = first_gatherv tr"

text \<open>The environment of a process that receives nothing: the transport reports the given
  status codes.\<close>

definition sender_gather_env :: "int \<Rightarrow> 'b gather_env" where
  "sender_gather_env rc = \<lparr>gather_status = rc, gather_peers = (\<lambda>k. None)\<rparr>"

definition sender_ser_env :: "int \<Rightarrow> int \<Rightarrow> ser_env" where
  "sender_ser_env rc rcv =
     \<lparr>size_exchange = sender_gather_env rc,
      payload_exchange = \<lparr>gatherv_status = rcv, gatherv_peers = (\<lambda>k. None)\<rparr>\<rparr>"

text \<open>The events of rank \<open>k\<close> of a group of \<open>N\<close> processes in which every process calls
  \<^verbatim>\<open>gather(comm, in_values, n, out_values, root)\<close> with its own values \<open>vals k\<close>.\<close>

definition peer_events ::
  "('a, 'e, 'b) is_mpi_datatype \<Rightarrow> 'e \<Rightarrow> nat \<Rightarrow> nat \<Rightarrow> nat \<Rightarrow> (nat \<Rightarrow> 'a list) \<Rightarrow> nat \<Rightarrow>
   'b event list" where
  "peer_events tag env N root n vals k =
     snd (snd (gather_array_ptr tag env \<lparr>comm_rank = k, comm_size = N\<rparr> (vals k) n None root))"

text \<open>The environment of the root: the transport succeeds and hands over what the events
  of the other ranks say they sent.\<close>

definition group_gather_env :: "(nat \<Rightarrow> 'b event list) \<Rightarrow> 'b gather_env" where
  "group_gather_env events =
     \<lparr>gather_status = MPI_SUCCESS, gather_peers = (\<lambda>k. first_gather (events k))\<rparr>"

definition group_ser_env :: "(nat \<Rightarrow> int event list) \<Rightarrow> ser_env" where
  "group_ser_env events =
     \<lparr>size_exchange = group_gather_env events,
      payload_exchange =
        \<lparr>gatherv_status = MPI_SUCCESS, gatherv_peers = (\<lambda>k. first_gatherv (events k))\<rparr>\<rparr>"


definition group_gather_false ::
  "bool \<Rightarrow> 'a codec \<Rightarrow> nat \<Rightarrow> nat \<Rightarrow> nat \<Rightarrow> (nat \<Rightarrow> 'a list) \<Rightarrow> 'a list option \<Rightarrow>
   error option \<times> 'a list option \<times> int event list" where
  "group_gather_false ndebug cd N root n vals out_values =
     gather_array_ptr (mpl_false ndebug cd)
       (group_ser_env
          (peer_events (mpl_false ndebug cd) (sender_ser_env MPI_SUCCESS MPI_SUCCESS) N root n vals))
       \<lparr>comm_rank = root, comm_size = N\<rparr> (vals root) n out_values root"

text \<open>The slice of the assembled result that belongs to rank \<open>k\<close>.\<close>

definition rank_slice :: "'a list option \<Rightarrow> nat \<Rightarrow> nat \<Rightarrow> 'a list" where
  "rank_slice p n k = (case p of None \<Rightarrow> [] | Some buf \<Rightarrow> take n (drop (k * n) buf))"

text \<open>A codec to run the model on: a natural number \<open>m\<close> is encoded in unary, as \<open>m\<close>
  bytes \<open>1\<close> and a closing byte \<open>0\<close>, so that the encoded size depends on the value.\<close>

definition unary_codec :: "nat codec" where
  "unary_codec =
     \<lparr>encode = (\<lambda>m. replicate m 1 @ [0]),
      decode = (\<lambda>buf pos.
        let rest = drop pos buf; body = takeWhile (\<lambda>b. b \<noteq> 0) rest
        in if length body < length rest then Some (length body, pos + length body + 1)
           else None)\<rparr>"

subsection \<open>The decode phase, as the spec words it\<close>

text \<open>Decoding exactly \<open>m\<close> values in sequence, starting at position \<open>pos\<close>: the values,
  and the positions the decoder read at; \<open>None\<close> when one of them fails to decode.\<close>

fun decode_seq :: "'a codec \<Rightarrow> byte list \<Rightarrow> nat \<Rightarrow> nat \<Rightarrow> ('a list \<times> nat list) option" where
  "decode_seq cd buf pos 0 = Some ([], [])"
| "decode_seq cd buf pos (Suc m) =
     (case decode cd buf pos of
        None \<Rightarrow> None
      | Some (v, pos') \<Rightarrow>
          (case decode_seq cd buf pos' m of
             None \<Rightarrow> None
           | Some (vs, ps) \<Rightarrow> Some (v # vs, pos # ps)))"

text \<open>What the slice of sender \<open>k\<close> is to hold: the root's own values for the root, the
  \<open>n\<close> values decoded at the sender's offset for another sender.\<close>

definition sender_values ::
  "'a codec \<Rightarrow> nat \<Rightarrow> byte list \<Rightarrow> int list \<Rightarrow> 'a list \<Rightarrow> nat \<Rightarrow> nat \<Rightarrow> 'a list option" where
  "sender_values cd root recv_buffer offsets in_values n k =
     (if k = root then Some (take n in_values)
      else map_option fst (decode_seq cd recv_buffer (size_t_of_int (offsets ! k)) n))"

text \<open>The positions the decoder is to read at for sender \<open>k\<close>: none for the root.\<close>

definition sender_loads ::
  "'a codec \<Rightarrow> nat \<Rightarrow> byte list \<Rightarrow> int list \<Rightarrow> nat \<Rightarrow> nat \<Rightarrow> nat list" where
  "sender_loads cd root recv_buffer offsets n k =
     (if k = root then []
      else case decode_seq cd recv_buffer (size_t_of_int (offsets ! k)) n of
        None \<Rightarrow> []
      | Some (vs, ps) \<Rightarrow> ps)"

text \<open>The Encoded Payload of a participant: its \<open>n\<close> values, encoded one after the other.\<close>

definition encoded_payload :: "'a codec \<Rightarrow> 'a list \<Rightarrow> nat \<Rightarrow> byte list" where
  "encoded_payload cd in_values n = concat (map (encode cd) (take n in_values))"

text \<open>An environment to run the decode failure on: the root (rank \<open>0\<close>) of a group of
  three is handed, by rank \<open>1\<close>, two bytes that lack the closing byte of the unary
  encoding, and by rank \<open>2\<close> one such byte.\<close>

definition cut_short_env :: ser_env where
  "cut_short_env =
     \<lparr>size_exchange =
        \<lparr>gather_status = MPI_SUCCESS,
         gather_peers = (\<lambda>k. if k = 1 then Some ([2], 1, 0)
                              else if k = 2 then Some ([1], 1, 0) else None)\<rparr>,
      payload_exchange =
        \<lparr>gatherv_status = MPI_SUCCESS,
         gatherv_peers = (\<lambda>k. if k = 1 then Some ([1, 1], 2, 0)
                               else if k = 2 then Some ([1], 1, 0) else None)\<rparr>\<rparr>"

section \<open>Properties of the offset computation\<close>

lemma size_t_sub_one: "i < n \<Longrightarrow> n \<le> 2 ^ 64 \<Longrightarrow> size_t_sub n 1 = n - 1"
proof -
  assume n: "i < n" "n \<le> 2 ^ 64"
  have "n + 2 ^ 64 - 1 = (n - 1) + 2 ^ 64" using n by simp
  then have "(n + 2 ^ 64 - 1) mod 2 ^ 64 = (n - 1) mod 2 ^ 64" by (metis mod_add_self2)
  also have "\<dots> = n - 1" using n by simp
  finally show ?thesis by (simp add: size_t_sub_def)
qed

lemma size_t_sub_zero: "size_t_sub 0 1 = 2 ^ 64 - 1"
  by (simp add: size_t_sub_def)

lemma sizes2offset_loop_in_bounds:
  "length offsets = length sizes \<Longrightarrow> i < length sizes \<Longrightarrow> length sizes \<le> 2 ^ 64 \<Longrightarrow>
   sizes2offset_loop i sizes offsets \<noteq> Inl OutOfBounds"
proof (induction i sizes offsets rule: sizes2offset_loop.induct)
  case (1 i sizes offsets)
  have b: "size_t_sub (length sizes) 1 = length sizes - 1"
    using "1.prems"(2,3) by (rule size_t_sub_one)
  show ?case
  proof (cases "i < length sizes - 1")
    case True
    show ?thesis
    proof (cases "\<not> in_int_range (offsets ! i + sizes ! i) \<or> INT_MAX \<le> int i")
      case True
      with \<open>i < length sizes - 1\<close> b "1.prems" show ?thesis
        by (subst sizes2offset_loop.simps) auto
    next
      case False
      have "sizes2offset_loop (i + 1) sizes (offsets[i + 1 := offsets ! i + sizes ! i]) \<noteq> Inl OutOfBounds"
        using \<open>i < length sizes - 1\<close> b "1.prems" False
        by (intro "1.IH") auto
      with \<open>i < length sizes - 1\<close> b "1.prems" False show ?thesis
        by (subst sizes2offset_loop.simps) auto
    qed
  next
    case False
    with b show ?thesis
      by (subst sizes2offset_loop.simps) simp
  qed
qed

lemma sizes2offset_loop_prefix:
  "length offsets = length sizes \<Longrightarrow> i < length sizes \<Longrightarrow> length sizes \<le> 2 ^ 31 \<Longrightarrow>
   (\<forall>k. i < k \<and> k < length sizes \<longrightarrow> in_int_range (sum_list (take k sizes))) \<Longrightarrow>
   offsets ! i = sum_list (take i sizes) \<Longrightarrow>
   \<exists>offs. sizes2offset_loop i sizes offsets = Inr offs \<and> length offs = length sizes \<and>
     (\<forall>k \<le> i. offs ! k = offsets ! k) \<and>
     (\<forall>k. i \<le> k \<and> k < length sizes \<longrightarrow> offs ! k = sum_list (take k sizes))"
proof (induction i sizes offsets rule: sizes2offset_loop.induct)
  case (1 i sizes offsets)
  have le64: "length sizes \<le> 2 ^ 64"
    using "1.prems"(3) by (rule order_trans) simp
  have b: "size_t_sub (length sizes) 1 = length sizes - 1"
    using "1.prems"(2) le64 by (rule size_t_sub_one)
  show ?case
  proof (cases "i < length sizes - 1")
    case False
    then have "i = length sizes - 1" using "1.prems" by simp
    with False b "1.prems" show ?thesis
      by (subst sizes2offset_loop.simps) (auto simp: le_less)
  next
    case True
    let ?v = "offsets ! i + sizes ! i"
    let ?offs = "offsets[i + 1 := ?v]"
    have v: "?v = sum_list (take (i + 1) sizes)"
      using True "1.prems" by (simp add: take_Suc_conv_app_nth)
    have rng: "in_int_range ?v"
      using v True "1.prems"(4) by simp
    have imax: "\<not> INT_MAX \<le> int i"
      using True "1.prems"(3) by (simp add: INT_MAX_def)
    have c1: "\<not> (length offsets \<le> i + 1 \<or> length sizes \<le> i)"
      using True "1.prems" by simp
    have step: "sizes2offset_loop i sizes offsets = sizes2offset_loop (i + 1) sizes ?offs"
      using True b rng imax c1 by (subst sizes2offset_loop.simps) simp
    have "\<exists>offs. sizes2offset_loop (i + 1) sizes ?offs = Inr offs \<and> length offs = length sizes \<and>
       (\<forall>k \<le> i + 1. offs ! k = ?offs ! k) \<and>
       (\<forall>k. i + 1 \<le> k \<and> k < length sizes \<longrightarrow> offs ! k = sum_list (take k sizes))"
    proof (rule "1.IH")
      show "i < size_t_sub (length sizes) 1" using True b by simp
      show "\<not> (length offsets \<le> i + 1 \<or> length sizes \<le> i)" by (rule c1)
      show "\<not> \<not> in_int_range ?v" using rng by simp
      show "\<not> INT_MAX \<le> int i" by (rule imax)
      show "length ?offs = length sizes" using "1.prems" by simp
      show "i + 1 < length sizes" using True by simp
      show "length sizes \<le> 2 ^ 31" by (rule "1.prems")
      show "\<forall>k. i + 1 < k \<and> k < length sizes \<longrightarrow> in_int_range (sum_list (take k sizes))"
        using "1.prems"(4) by simp
      show "?offs ! (i + 1) = sum_list (take (i + 1) sizes)"
        using v True "1.prems" by simp
    qed
    then obtain offs where o: "sizes2offset_loop (i + 1) sizes ?offs = Inr offs"
      "length offs = length sizes" "\<forall>k \<le> i + 1. offs ! k = ?offs ! k"
      "\<forall>k. i + 1 \<le> k \<and> k < length sizes \<longrightarrow> offs ! k = sum_list (take k sizes)"
      by blast
    have low: "\<forall>k \<le> i. offs ! k = offsets ! k"
      using o(3) by (auto simp: nth_list_update)
    have "\<forall>k. i \<le> k \<and> k < length sizes \<longrightarrow> offs ! k = sum_list (take k sizes)"
    proof (intro allI impI)
      fix k assume k: "i \<le> k \<and> k < length sizes"
      show "offs ! k = sum_list (take k sizes)"
      proof (cases "k = i")
        case True
        then show ?thesis using low "1.prems"(5) by simp
      next
        case False
        then show ?thesis using k o(4) by simp
      qed
    qed
    with step o(1,2) low show ?thesis by simp
  qed
qed


lemma sum_list_take_Suc:
  "k < length (xs :: int list) \<Longrightarrow> sum_list (take (Suc k) xs) = sum_list (take k xs) + xs ! k"
  by (simp add: take_Suc_conv_app_nth)

lemma sum_list_nonneg_int: "\<forall>s\<in>set (xs :: int list). 0 \<le> s \<Longrightarrow> 0 \<le> sum_list xs"
  by (induction xs) auto

lemma sum_list_take_mono:
  assumes "\<forall>s\<in>set (xs :: int list). 0 \<le> s" "j \<le> k"
  shows "sum_list (take j xs) \<le> sum_list (take k xs)"
proof -
  have "take k xs = take j xs @ take (k - j) (drop j xs)"
    using assms(2) by (metis le_add_diff_inverse take_add)
  moreover have "0 \<le> sum_list (take (k - j) (drop j xs))"
    using assms(1) by (intro sum_list_nonneg_int) (meson in_set_dropD in_set_takeD)
  ultimately show ?thesis by simp
qed

lemma sum_list_take_le:
  assumes "\<forall>s\<in>set (xs :: int list). 0 \<le> s"
  shows "sum_list (take k xs) \<le> sum_list xs"
  using sum_list_take_mono [OF assms, of k "length xs"] by (cases "k \<le> length xs") auto

lemma segments_cover:
  assumes "\<forall>s\<in>set (xs :: int list). 0 \<le> s"
  shows "m \<le> length xs \<Longrightarrow>
    (\<Union>k<m. {sum_list (take k xs) ..< sum_list (take k xs) + xs ! k}) = {0 ..< sum_list (take m xs)}"
proof (induction m)
  case 0
  then show ?case by simp
next
  case (Suc m)
  have m: "m < length xs" using Suc.prems by simp
  have p: "0 \<le> sum_list (take m xs)"
    using assms by (intro sum_list_nonneg_int) (meson in_set_takeD)
  have q: "0 \<le> xs ! m" using assms m by simp
  have "(\<Union>k<Suc m. {sum_list (take k xs) ..< sum_list (take k xs) + xs ! k}) =
        {0 ..< sum_list (take m xs)} \<union> {sum_list (take m xs) ..< sum_list (take m xs) + xs ! m}"
    using Suc.IH m by (simp add: lessThan_Suc Un_commute)
  also have "\<dots> = {0 ..< sum_list (take m xs) + xs ! m}"
    using p q by (intro ivl_disj_un_two) auto
  finally show ?case using m by (simp add: sum_list_take_Suc)
qed

lemma sizes2offset_loop_overflow:
  "length offsets = length sizes \<Longrightarrow> length sizes \<le> 2 ^ 64 \<Longrightarrow> i \<le> j \<Longrightarrow>
   j + 1 < length sizes \<Longrightarrow>
   \<not> in_int_range (sum_list (take (j + 1) sizes)) \<or> INT_MAX \<le> int j \<Longrightarrow>
   offsets ! i = sum_list (take i sizes) \<Longrightarrow>
   sizes2offset_loop i sizes offsets = Inl SignedOverflow"
proof (induction "j - i" arbitrary: i offsets)
  case 0
  then have ij: "i = j" by simp
  have b: "size_t_sub (length sizes) 1 = length sizes - 1"
    using "0.prems"(4,2) by (rule size_t_sub_one)
  have lt: "i < length sizes - 1" using ij "0.prems"(4) by simp
  have v: "offsets ! i + sizes ! i = sum_list (take (j + 1) sizes)"
    using lt ij "0.prems"(6) by (simp add: take_Suc_conv_app_nth)
  show ?case
    using lt b v ij "0.prems"(1,5) by (subst sizes2offset_loop.simps) auto
next
  case (Suc d)
  then have ij: "i < j" by simp
  have b: "size_t_sub (length sizes) 1 = length sizes - 1"
    using Suc.prems(4,2) by (rule size_t_sub_one)
  have lt: "i < length sizes - 1" using ij Suc.prems(4) by simp
  let ?v = "offsets ! i + sizes ! i"
  let ?offs = "offsets[i + 1 := ?v]"
  have v: "?v = sum_list (take (i + 1) sizes)"
    using lt Suc.prems(6) by (simp add: take_Suc_conv_app_nth)
  show ?case
  proof (cases "\<not> in_int_range ?v \<or> INT_MAX \<le> int i")
    case True
    then show ?thesis
      using lt b Suc.prems(1) by (subst sizes2offset_loop.simps) auto
  next
    case False
    have step: "sizes2offset_loop i sizes offsets = sizes2offset_loop (i + 1) sizes ?offs"
      using lt b False Suc.prems(1) by (subst sizes2offset_loop.simps) auto
    have "sizes2offset_loop (i + 1) sizes ?offs = Inl SignedOverflow"
    proof (rule Suc.hyps(1))
      show "d = j - (i + 1)" using Suc.hyps(2) by simp
      show "length ?offs = length sizes" using Suc.prems(1) by simp
      show "length sizes \<le> 2 ^ 64" by (rule Suc.prems(2))
      show "i + 1 \<le> j" using ij by simp
      show "j + 1 < length sizes" by (rule Suc.prems(4))
      show "\<not> in_int_range (sum_list (take (j + 1) sizes)) \<or> INT_MAX \<le> int j"
        by (rule Suc.prems(5))
      show "?offs ! (i + 1) = sum_list (take (i + 1) sizes)"
        using v lt Suc.prems(1) by simp
    qed
    with step show ?thesis by simp
  qed
qed

text \<open>
  Claim C2. The offsets are of type \<^verbatim>\<open>int\<close> and the loop counts in \<^verbatim>\<open>int\<close>. For a
  non-empty vector of sizes and an offsets vector of the same length, the offset
  computation returns exactly when the vector has at most \<open>2 ^ 31\<close> entries and every
  running total \<open>sizes[0] + \<dots> + sizes[k-1]\<close>, \<open>1 \<le> k < N\<close>, is a value of \<^verbatim>\<open>int\<close>;
  otherwise it ends in a signed overflow. When it returns, \<open>offsets[0] = 0\<close> and
  \<open>offsets[k] = offsets[k-1] + sizes[k-1]\<close> for \<open>1 \<le> k < N\<close>; when in addition no size
  is negative, the segments \<open>[offsets[k], offsets[k] + sizes[k])\<close> are pairwise disjoint
  and their union is \<open>[0, sum sizes)\<close>; and for \<open>N = 1\<close> the result is \<open>[0]\<close>, the loop
  returning the vector it is given without running its body.
\<close>

theorem sizes2offset_prefix_sums:
  assumes ne: "sizes \<noteq> []" and len: "length offsets = length sizes"
    and le64: "length sizes \<le> 2 ^ 64"
  shows "(length sizes \<le> 2 ^ 31 \<and>
      (\<forall>k. 0 < k \<and> k < length sizes \<longrightarrow> in_int_range (sum_list (take k sizes))) \<longrightarrow>
      (\<exists>offs. sizes2offset ndebug sizes offsets = Inr offs \<and> length offs = length sizes \<and>
         offs ! 0 = 0 \<and>
         (\<forall>k. 1 \<le> k \<and> k < length sizes \<longrightarrow> offs ! k = offs ! (k - 1) + sizes ! (k - 1)) \<and>
         ((\<forall>s\<in>set sizes. 0 \<le> s) \<longrightarrow>
            (\<forall>j k. j < length sizes \<and> k < length sizes \<and> j \<noteq> k \<longrightarrow>
               segment offs sizes j \<inter> segment offs sizes k = {}) \<and>
            (\<Union>k<length sizes. segment offs sizes k) = {0 ..< sum_list sizes}) \<and>
         (length sizes = 1 \<longrightarrow>
            offs = [0] \<and> sizes2offset_loop 0 sizes (offsets[0 := 0]) = Inr (offsets[0 := 0])))) \<and>
    (\<not> (length sizes \<le> 2 ^ 31 \<and>
        (\<forall>k. 0 < k \<and> k < length sizes \<longrightarrow> in_int_range (sum_list (take k sizes)))) \<longrightarrow>
      sizes2offset ndebug sizes offsets = Inl SignedOverflow)"
proof (intro conjI impI)
  let ?o = "offsets[0 := 0]"
  let ?p = "\<lambda>k. sum_list (take k sizes)"
  have pos: "0 < length sizes" using ne by simp
  assume "\<not> (length sizes \<le> 2 ^ 31 \<and> (\<forall>k. 0 < k \<and> k < length sizes \<longrightarrow> in_int_range (?p k)))"
  then have "\<exists>j. j + 1 < length sizes \<and> (\<not> in_int_range (?p (j + 1)) \<or> INT_MAX \<le> int j)"
  proof (cases "length sizes \<le> 2 ^ 31")
    case False
    then have "(2 ^ 31 - 1) + 1 < length sizes" by simp
    moreover have "INT_MAX \<le> int (2 ^ 31 - 1)" by (simp add: INT_MAX_def)
    ultimately show ?thesis by blast
  next
    case True
    assume "\<not> (length sizes \<le> 2 ^ 31 \<and> (\<forall>k. 0 < k \<and> k < length sizes \<longrightarrow> in_int_range (?p k)))"
    with True obtain k where k: "0 < k" "k < length sizes" "\<not> in_int_range (?p k)" by blast
    then have "(k - 1) + 1 < length sizes \<and> \<not> in_int_range (?p ((k - 1) + 1))" by simp
    then show ?thesis by blast
  qed
  then obtain j where j: "j + 1 < length sizes"
    "\<not> in_int_range (?p (j + 1)) \<or> INT_MAX \<le> int j" by blast
  have "sizes2offset_loop 0 sizes ?o = Inl SignedOverflow"
  proof (rule sizes2offset_loop_overflow [where j = j])
    show "length ?o = length sizes" using len by simp
    show "length sizes \<le> 2 ^ 64" by (rule le64)
    show "0 \<le> j" by simp
    show "j + 1 < length sizes" by (rule j(1))
    show "\<not> in_int_range (?p (j + 1)) \<or> INT_MAX \<le> int j" by (rule j(2))
    show "?o ! 0 = ?p 0" using len pos by simp
  qed
  then show "sizes2offset ndebug sizes offsets = Inl SignedOverflow"
    using len pos by (simp add: sizes2offset_def)
next
  let ?o = "offsets[0 := 0]"
  let ?p = "\<lambda>k. sum_list (take k sizes)"
  have pos: "0 < length sizes" using ne by simp
  assume a: "length sizes \<le> 2 ^ 31 \<and> (\<forall>k. 0 < k \<and> k < length sizes \<longrightarrow> in_int_range (?p k))"
  then have n31: "length sizes \<le> 2 ^ 31"
    and rng: "\<forall>k. 0 < k \<and> k < length sizes \<longrightarrow> in_int_range (?p k)" by simp_all
  have "\<exists>offs. sizes2offset_loop 0 sizes ?o = Inr offs \<and> length offs = length sizes \<and>
     (\<forall>k \<le> 0. offs ! k = ?o ! k) \<and>
     (\<forall>k. 0 \<le> k \<and> k < length sizes \<longrightarrow> offs ! k = ?p k)"
  proof (rule sizes2offset_loop_prefix)
    show "length ?o = length sizes" using len by simp
    show "0 < length sizes" by (rule pos)
    show "length sizes \<le> 2 ^ 31" by (rule n31)
    show "\<forall>k. 0 < k \<and> k < length sizes \<longrightarrow> in_int_range (?p k)" by (rule rng)
    show "?o ! 0 = ?p 0" using len pos by simp
  qed
  then obtain offs where o: "sizes2offset_loop 0 sizes ?o = Inr offs" "length offs = length sizes"
    and pre: "\<And>k. k < length sizes \<Longrightarrow> offs ! k = ?p k"
    by auto
  have run: "sizes2offset ndebug sizes offsets = Inr offs"
    using o(1) len pos by (simp add: sizes2offset_def)
  have zero: "offs ! 0 = 0" using pre [OF pos] by simp
  have rec: "\<forall>k. 1 \<le> k \<and> k < length sizes \<longrightarrow> offs ! k = offs ! (k - 1) + sizes ! (k - 1)"
  proof (intro allI impI)
    fix k assume k: "1 \<le> k \<and> k < length sizes"
    then obtain j where j: "k = Suc j" by (cases k) auto
    have "offs ! Suc j = ?p (Suc j)" using k j pre by simp
    also have "\<dots> = ?p j + sizes ! j" using k j by (intro sum_list_take_Suc) simp
    also have "?p j = offs ! j" using k j pre [of j] by simp
    finally show "offs ! k = offs ! (k - 1) + sizes ! (k - 1)" using j by simp
  qed
  have seg: "\<And>k. k < length sizes \<Longrightarrow> segment offs sizes k = {?p k ..< ?p (Suc k)}"
    by (simp add: segment_def pre sum_list_take_Suc)
  have geo: "(\<forall>s\<in>set sizes. 0 \<le> s) \<longrightarrow>
      (\<forall>j k. j < length sizes \<and> k < length sizes \<and> j \<noteq> k \<longrightarrow>
         segment offs sizes j \<inter> segment offs sizes k = {}) \<and>
      (\<Union>k<length sizes. segment offs sizes k) = {0 ..< sum_list sizes}"
  proof (intro impI conjI)
    assume nonneg: "\<forall>s\<in>set sizes. 0 \<le> s"
    have lt: "\<And>j k. j < k \<Longrightarrow> k < length sizes \<Longrightarrow>
        segment offs sizes j \<inter> segment offs sizes k = {}"
    proof -
      fix j k assume jk: "j < k" "k < length sizes"
      have "?p (Suc j) \<le> ?p k" using jk by (intro sum_list_take_mono [OF nonneg]) simp
      then show "segment offs sizes j \<inter> segment offs sizes k = {}"
        using jk by (auto simp: seg)
    qed
    show "\<forall>j k. j < length sizes \<and> k < length sizes \<and> j \<noteq> k \<longrightarrow>
          segment offs sizes j \<inter> segment offs sizes k = {}"
    proof (intro allI impI)
      fix j k assume a: "j < length sizes \<and> k < length sizes \<and> j \<noteq> k"
      show "segment offs sizes j \<inter> segment offs sizes k = {}"
      proof (cases "j < k")
        case True
        then show ?thesis using a lt by simp
      next
        case False
        then have "k < j" using a by simp
        then have "segment offs sizes k \<inter> segment offs sizes j = {}" using a lt by simp
        then show ?thesis by (simp add: Int_commute)
      qed
    qed
    have "(\<Union>k<length sizes. segment offs sizes k) =
          (\<Union>k<length sizes. {?p k ..< ?p k + sizes ! k})"
      by (simp add: segment_def pre)
    also have "\<dots> = {0 ..< ?p (length sizes)}"
      by (rule segments_cover [OF nonneg]) simp
    finally show "(\<Union>k<length sizes. segment offs sizes k) = {0 ..< sum_list sizes}" by simp
  qed
  have one: "length sizes = 1 \<longrightarrow>
        offs = [0] \<and> sizes2offset_loop 0 sizes ?o = Inr ?o"
  proof
    assume l1: "length sizes = 1"
    have "size_t_sub (length sizes) 1 = 0" using l1 by (simp add: size_t_sub_def)
    then have r: "sizes2offset_loop 0 sizes ?o = Inr ?o"
      by (subst sizes2offset_loop.simps) simp
    with o(1) have "offs = ?o" by simp
    moreover have "?o = [0]" using len l1 by (cases offsets) auto
    ultimately show "offs = [0] \<and> sizes2offset_loop 0 sizes ?o = Inr ?o" using r by simp
  qed
  show "\<exists>offs. sizes2offset ndebug sizes offsets = Inr offs \<and> length offs = length sizes \<and>
         offs ! 0 = 0 \<and>
         (\<forall>k. 1 \<le> k \<and> k < length sizes \<longrightarrow> offs ! k = offs ! (k - 1) + sizes ! (k - 1)) \<and>
         ((\<forall>s\<in>set sizes. 0 \<le> s) \<longrightarrow>
            (\<forall>j k. j < length sizes \<and> k < length sizes \<and> j \<noteq> k \<longrightarrow>
               segment offs sizes j \<inter> segment offs sizes k = {}) \<and>
            (\<Union>k<length sizes. segment offs sizes k) = {0 ..< sum_list sizes}) \<and>
         (length sizes = 1 \<longrightarrow>
            offs = [0] \<and> sizes2offset_loop 0 sizes (offsets[0 := 0]) = Inr (offsets[0 := 0]))"
    using run o(2) zero rec geo one by (intro exI [of _ offs] conjI)
qed

theorem sizes2offset_prefix_sums_witness:
  "sizes2offset False [2147483647, 1] [7, 7] = Inr [0, 2147483647] \<and>
   segment [0, 2147483647] [2147483647, 1] 0 \<inter> segment [0, 2147483647] [2147483647, 1] 1 = {} \<and>
   (\<Union>k<2. segment [0, 2147483647] [2147483647, 1] k) = {0 ..< 2147483648} \<and>
   sizes2offset False [2147483647, 1, 5] [7, 7, 7] = Inl SignedOverflow"
proof -
  let ?s = "[2147483647, 1 :: int]"
  let ?t = "[2147483647, 1, 5 :: int]"
  have run: "sizes2offset False ?s [7, 7] = Inr [0, 2147483647]"
    by (simp add: sizes2offset_def sizes2offset_loop.simps size_t_sub_def in_int_range_def
        INT_MAX_def INT_MIN_def)
  have h: "length ?s \<le> 2 ^ 31 \<and>
      (\<forall>k. 0 < k \<and> k < length ?s \<longrightarrow> in_int_range (sum_list (take k ?s)))"
    by (auto simp: in_int_range_def INT_MAX_def INT_MIN_def less_Suc_eq)
  have nn: "\<forall>s\<in>set ?s. 0 \<le> s" by simp
  have "\<exists>offs. sizes2offset False ?s [7, 7] = Inr offs \<and> length offs = length ?s \<and>
         offs ! 0 = 0 \<and>
         (\<forall>k. 1 \<le> k \<and> k < length ?s \<longrightarrow> offs ! k = offs ! (k - 1) + ?s ! (k - 1)) \<and>
         ((\<forall>s\<in>set ?s. 0 \<le> s) \<longrightarrow>
            (\<forall>j k. j < length ?s \<and> k < length ?s \<and> j \<noteq> k \<longrightarrow>
               segment offs ?s j \<inter> segment offs ?s k = {}) \<and>
            (\<Union>k<length ?s. segment offs ?s k) = {0 ..< sum_list ?s}) \<and>
         (length ?s = 1 \<longrightarrow>
            offs = [0] \<and> sizes2offset_loop 0 ?s ([7, 7][0 := 0]) = Inr ([7, 7][0 := 0]))"
    by (rule sizes2offset_prefix_sums [THEN conjunct1, rule_format, OF _ _ _ h]) simp_all
  then obtain offs where o: "sizes2offset False ?s [7, 7] = Inr offs"
    and g: "(\<forall>s\<in>set ?s. 0 \<le> s) \<longrightarrow>
            (\<forall>j k. j < length ?s \<and> k < length ?s \<and> j \<noteq> k \<longrightarrow>
               segment offs ?s j \<inter> segment offs ?s k = {}) \<and>
            (\<Union>k<length ?s. segment offs ?s k) = {0 ..< sum_list ?s}"
    by (elim exE conjE)
  have e: "offs = [0, 2147483647]" using o run by simp
  from g nn have d: "\<forall>j k. j < length ?s \<and> k < length ?s \<and> j \<noteq> k \<longrightarrow>
               segment offs ?s j \<inter> segment offs ?s k = {}"
    and c: "(\<Union>k<length ?s. segment offs ?s k) = {0 ..< sum_list ?s}"
    by blast+
  have c1: "segment [0, 2147483647] ?s 0 \<inter> segment [0, 2147483647] ?s 1 = {}"
    using d [rule_format, of 0 1] by (simp add: e)
  have c2: "(\<Union>k<2. segment [0, 2147483647] ?s k) = {0 ..< 2147483648}"
    using c by (simp add: e numeral_2_eq_2)
  have bad: "\<not> (length ?t \<le> 2 ^ 31 \<and>
      (\<forall>k. 0 < k \<and> k < length ?t \<longrightarrow> in_int_range (sum_list (take k ?t))))"
  proof -
    have "0 < (2::nat) \<and> 2 < length ?t \<and> \<not> in_int_range (sum_list (take 2 ?t))"
      by (simp add: in_int_range_def INT_MAX_def INT_MIN_def numeral_2_eq_2)
    then show ?thesis by blast
  qed
  have c3: "sizes2offset False ?t [7, 7, 7] = Inl SignedOverflow"
    by (rule sizes2offset_prefix_sums [THEN conjunct2, rule_format, OF _ _ _ bad]) simp_all
  show ?thesis using run c1 c2 c3 by (intro conjI)
qed

theorem sizes2offset_prefix_sums_counterexample:
  "sizes2offset False [2147483647, 1, 0] [0, 0, 0] = Inl SignedOverflow \<and>
   sizes2offset True [2147483647, 1, 0] [0, 0, 0] = Inl SignedOverflow \<and>
   sizes2offset False [2, - 1, 2] [0, 0, 0] = Inr [0, 2, 1] \<and>
   1 \<in> segment [0, 2, 1] [2, - 1, 2] 0 \<inter> segment [0, 2, 1] [2, - 1, 2] 2"
  by (simp add: sizes2offset_def sizes2offset_loop.simps size_t_sub_def in_int_range_def
      INT_MAX_def INT_MIN_def segment_def)

text \<open>
  Claim C10. The offset computation writes \<open>offsets[0]\<close> whatever the vectors hold, and
  checks only that the two lengths are equal: on an empty sizes vector the call ends in an
  access out of bounds (or, when the lengths differ and assertions are compiled in, in the
  failed assertion). When sizes is non-empty and offsets has the same length, no access of
  the call, the loop's included, is out of bounds.
\<close>

theorem sizes2offset_bounds:
  "sizes2offset ndebug [] offsets =
     (if \<not> ndebug \<and> offsets \<noteq> [] then Inl AssertionFailed else Inl OutOfBounds) \<and>
   (sizes \<noteq> [] \<and> length offsets = length sizes \<and> length sizes \<le> 2 ^ 64 \<longrightarrow>
      sizes2offset ndebug sizes offsets \<noteq> Inl OutOfBounds)"
proof
  have "sizes2offset_loop 0 [] (offsets[0 := 0]) = Inl OutOfBounds"
    by (subst sizes2offset_loop.simps) (simp add: size_t_sub_def)
  then show "sizes2offset ndebug [] offsets =
     (if \<not> ndebug \<and> offsets \<noteq> [] then Inl AssertionFailed else Inl OutOfBounds)"
    by (simp add: sizes2offset_def)
next
  show "sizes \<noteq> [] \<and> length offsets = length sizes \<and> length sizes \<le> 2 ^ 64 \<longrightarrow>
      sizes2offset ndebug sizes offsets \<noteq> Inl OutOfBounds"
  proof
    assume a: "sizes \<noteq> [] \<and> length offsets = length sizes \<and> length sizes \<le> 2 ^ 64"
    have "sizes2offset_loop 0 sizes (offsets[0 := 0]) \<noteq> Inl OutOfBounds"
    proof (rule sizes2offset_loop_in_bounds)
      show "length (offsets[0 := 0]) = length sizes" using a by simp
      show "0 < length sizes" using a by simp
      show "length sizes \<le> 2 ^ 64" using a by simp
    qed
    with a show "sizes2offset ndebug sizes offsets \<noteq> Inl OutOfBounds"
      by (simp add: sizes2offset_def)
  qed
qed

theorem sizes2offset_bounds_witness:
  "sizes2offset True [] [] = Inl OutOfBounds \<and> sizes2offset False [] [] = Inl OutOfBounds \<and>
   sizes2offset False [] [1] = Inl AssertionFailed \<and>
   sizes2offset True [2, 1] [5, 5] \<noteq> Inl OutOfBounds"
  using sizes2offset_bounds [where ndebug = True and offsets = "[]" and sizes = "[2, 1]"]
    sizes2offset_bounds [where ndebug = False and offsets = "[]" and sizes = "[2, 1]"]
    sizes2offset_bounds [where ndebug = False and offsets = "[1]" and sizes = "[2, 1]"]
    sizes2offset_bounds [where ndebug = True and offsets = "[5, 5]" and sizes = "[2, 1]"]
  by simp

section \<open>Properties of the gather operation\<close>

subsection \<open>Auxiliary facts\<close>

lemma store_shape:
  "store p pos xs = Inr p' \<Longrightarrow> map_option length p' = map_option length p"
  by (auto simp: store_def split: if_splits option.splits)



lemma load_values_shape:
  "load_values cd buf pos src i n p tr = (e, p', tr') \<Longrightarrow>
   map_option length p' = map_option length p"
proof (induction cd buf pos src i n p tr rule: load_values.induct)
  case (1 cd buf pos src i n out_values tr)
  from "1.prems" show ?case
    by (subst (asm) load_values.simps)
       (auto split: if_splits option.splits prod.splits dest!: "1.IH")
qed

lemma unpack_loop_done:
  "\<not> src < nproc \<Longrightarrow>
   unpack_loop cd nproc root recv_buffer offsets in_values n src p tr = (None, p, tr)"
  by (subst unpack_loop.simps) simp

lemma unpack_loop_root:
  "src < nproc \<Longrightarrow> src = root \<Longrightarrow>
   unpack_loop cd nproc root recv_buffer offsets in_values n src p tr =
     (if \<not> in_int_range (int n * int src) then (Some SignedOverflow, p, tr)
      else if length in_values < n then (Some OutOfBounds, p, tr)
      else case store p (n * src) (take n in_values) of
        Inl e \<Rightarrow> (Some e, p, tr)
      | Inr p1 \<Rightarrow> unpack_loop cd nproc root recv_buffer offsets in_values n (src + 1) p1 tr)"
  by (subst unpack_loop.simps) simp

lemma unpack_loop_other:
  "src < nproc \<Longrightarrow> src \<noteq> root \<Longrightarrow>
   unpack_loop cd nproc root recv_buffer offsets in_values n src p tr =
     (if length offsets \<le> src then (Some OutOfBounds, p, tr)
      else case load_values cd recv_buffer (size_t_of_int (offsets ! src)) src 0 n p tr of
        (Some e, p1, tr1) \<Rightarrow> (Some e, p1, tr1)
      | (None, p1, tr1) \<Rightarrow>
          unpack_loop cd nproc root recv_buffer offsets in_values n (src + 1) p1 tr1)"
  by (subst unpack_loop.simps) simp

lemma unpack_loop_shape:
  "unpack_loop cd nproc root recv_buffer offsets in_values n src p tr = (e, p', tr') \<Longrightarrow>
   map_option length p' = map_option length p"
proof (induction "nproc - src" arbitrary: src p tr)
  case 0
  then show ?case by (simp add: unpack_loop_done)
next
  case (Suc d)
  then have lt: "src < nproc" and d: "d = nproc - Suc src" by auto
  have ih: "\<And>p1 tr1. unpack_loop cd nproc root recv_buffer offsets in_values n (Suc src) p1 tr1 =
      (e, p', tr') \<Longrightarrow> map_option length p' = map_option length p1"
    using Suc.hyps(1) [OF d] by simp
  show ?case
  proof (cases "src = root")
    case True
    from Suc.prems show ?thesis
      unfolding unpack_loop_root [OF lt True]
      by (auto split: if_splits sum.splits dest!: ih store_shape)
  next
    case False
    from Suc.prems show ?thesis
      unfolding unpack_loop_other [OF lt False]
      by (auto split: if_splits option.splits prod.splits dest!: ih load_values_shape)
  qed
qed

lemma gather_impl_false_shape:
  "gather_impl_false ndebug cd env comm in_values n p root = (e, p', tr) \<Longrightarrow>
   map_option length p' = map_option length p"
  unfolding gather_impl_false_def Let_def
  by (auto split: sum.splits prod.splits option.splits if_splits dest: unpack_loop_shape)



lemma resize_Nil: "resize dflt v m = [] \<longleftrightarrow> m = 0"
  by (cases m) (auto simp: resize_def)

lemma front_address_resize:
  "front_address (resize dflt v m) =
     (if m = 0 then Inl OutOfBounds else Inr (Some (resize dflt v m)))"
  by (simp add: front_address_def resize_Nil)



lemma slice_Some: "rank_slice (Some buf) n k = take n (drop (k * n) buf)"
  by (simp add: rank_slice_def)

lemma block_index_outside:
  assumes "j \<noteq> src" "i < (n::nat)"
  shows "j * n + i < n * src \<or> n * src + n \<le> j * n + i"
proof (cases "j < src")
  case True
  then have "Suc j \<le> src" by simp
  then have "Suc j * n \<le> src * n" by (rule mult_le_mono1)
  then show ?thesis using assms(2) by (simp add: mult.commute)
next
  case False
  then have "Suc src \<le> j" using assms(1) by simp
  then have "Suc src * n \<le> j * n" by (rule mult_le_mono1)
  then show ?thesis by (simp add: mult.commute)
qed

lemma slice_frame:
  assumes len: "length out' = length out"
    and fr: "\<forall>x. x < length out \<and> (x < n * src \<or> n * src + n \<le> x) \<longrightarrow> out' ! x = out ! x"
    and j: "j \<noteq> src"
  shows "rank_slice (Some out') n j = rank_slice (Some out) n j"
proof -
  have "take n (drop (j * n) out') = take n (drop (j * n) out)"
  proof (rule nth_equalityI)
    show "length (take n (drop (j * n) out')) = length (take n (drop (j * n) out))"
      using len by simp
  next
    fix i assume "i < length (take n (drop (j * n) out'))"
    then have i: "i < n" "j * n + i < length out'" by auto
    have "out' ! (j * n + i) = out ! (j * n + i)"
      using fr block_index_outside [OF j i(1)] i(2) len by simp
    then show "take n (drop (j * n) out') ! i = take n (drop (j * n) out) ! i"
      using i len by simp
  qed
  then show ?thesis by (simp add: slice_Some)
qed

lemma load_values_None_ptr:
  "load_values cd buf pos src i n None tr = (e, p', tr') \<Longrightarrow> p' = None \<and> tr' = tr \<and> (e = None \<longrightarrow> n \<le> i)"
  by (subst (asm) load_values.simps) (auto split: if_splits)

lemma load_values_result:
  "load_values cd buf pos src i n (Some out) tr = (e, p', tr') \<Longrightarrow> i \<le> n \<Longrightarrow>
   \<exists>out'. p' = Some out' \<and> length out' = length out \<and>
     (\<forall>x. x < n * src + i \<or> n * src + n \<le> x \<longrightarrow> out' ! x = out ! x) \<and>
     (e = None \<longrightarrow>
        (\<exists>vs ps. decode_seq cd buf pos (n - i) = Some (vs, ps) \<and> tr' = tr @ map Load_call ps \<and>
           take (n - i) (drop (n * src + i) out') = vs)) \<and>
     (e = Some ArchiveException \<longrightarrow> decode_seq cd buf pos (n - i) = None)"
proof (induction "n - i" arbitrary: i pos out tr)
  case 0
  then have "i = n" by simp
  with "0.prems" show ?case
    by (subst (asm) load_values.simps) auto
next
  case (Suc d)
  then have lt: "i < n" and d: "d = n - Suc i" and si: "Suc i \<le> n" by auto
  have ni: "n - i = Suc (n - Suc i)" using lt by simp
  note run = Suc.prems(1) [unfolded load_values.simps [of cd buf pos src i n "Some out" tr]]
  show ?case
  proof (cases "\<not> in_int_range (int n * int src + int i) \<or> length out \<le> n * src + i")
    case True
    with run lt show ?thesis by (auto split: if_splits)
  next
    case ok: False
    show ?thesis
    proof (cases "decode cd buf pos")
      case None
      with run lt ok show ?thesis by (auto simp: ni)
    next
      case (Some vp)
      obtain v pos' where vp: "vp = (v, pos')" by (cases vp)
      let ?out1 = "out[n * src + i := v]"
      from run lt ok Some vp
      have rec: "load_values cd buf pos' src (Suc i) n (Some ?out1) (tr @ [Load_call pos]) = (e, p', tr')"
        by simp
      from Suc.hyps(1) [OF d rec si]
      obtain out' where o: "p' = Some out'" "length out' = length ?out1"
        and fr: "\<forall>x. x < n * src + Suc i \<or> n * src + n \<le> x \<longrightarrow> out' ! x = ?out1 ! x"
        and okc: "e = None \<longrightarrow>
          (\<exists>vs ps. decode_seq cd buf pos' (n - Suc i) = Some (vs, ps) \<and>
             tr' = (tr @ [Load_call pos]) @ map Load_call ps \<and>
             take (n - Suc i) (drop (n * src + Suc i) out') = vs)"
        and failc: "e = Some ArchiveException \<longrightarrow> decode_seq cd buf pos' (n - Suc i) = None"
        by blast
      have len: "length out' = length out" using o(2) by simp
      have at: "out' ! (n * src + i) = v"
        using fr ok by (simp add: nth_list_update)
      have fr': "\<forall>x. x < n * src + i \<or> n * src + n \<le> x \<longrightarrow> out' ! x = out ! x"
      proof (intro allI impI)
        fix x assume x: "x < n * src + i \<or> n * src + n \<le> x"
        then have "x \<noteq> n * src + i" using lt by auto
        moreover have "out' ! x = ?out1 ! x" using fr x by auto
        ultimately show "out' ! x = out ! x" by simp
      qed
      have okc': "e = None \<longrightarrow>
        (\<exists>vs ps. decode_seq cd buf pos (n - i) = Some (vs, ps) \<and> tr' = tr @ map Load_call ps \<and>
           take (n - i) (drop (n * src + i) out') = vs)"
      proof
        assume "e = None"
        with okc obtain vs ps where v: "decode_seq cd buf pos' (n - Suc i) = Some (vs, ps)"
          "tr' = (tr @ [Load_call pos]) @ map Load_call ps"
          "take (n - Suc i) (drop (n * src + Suc i) out') = vs" by blast
        have lo: "n * src + i < length out'" using ok len by simp
        have "take (n - i) (drop (n * src + i) out') =
              out' ! (n * src + i) # take (n - Suc i) (drop (Suc (n * src + i)) out')"
          using lo by (simp add: ni Cons_nth_drop_Suc [symmetric])
        then have "take (n - i) (drop (n * src + i) out') = v # vs"
          using at v(3) by simp
        moreover have "decode_seq cd buf pos (n - i) = Some (v # vs, pos # ps)"
          using Some vp v(1) by (simp add: ni)
        moreover have "tr' = tr @ map Load_call (pos # ps)" using v(2) by simp
        ultimately show "\<exists>vs ps. decode_seq cd buf pos (n - i) = Some (vs, ps) \<and>
           tr' = tr @ map Load_call ps \<and> take (n - i) (drop (n * src + i) out') = vs"
          by blast
      qed
      have failc': "e = Some ArchiveException \<longrightarrow> decode_seq cd buf pos (n - i) = None"
        using failc Some vp by (simp add: ni)
      from o(1) len fr' okc' failc' show ?thesis by blast
    qed
  qed
qed

lemma slice_None: "rank_slice None n k = []"
  by (simp add: rank_slice_def)

lemma load_values_slices:
  assumes "load_values cd buf pos src 0 n p tr = (e, p1, tr1)"
  shows "(\<forall>j. j \<noteq> src \<longrightarrow> rank_slice p1 n j = rank_slice p n j) \<and>
     (e = None \<longrightarrow>
        (\<exists>vs ps. decode_seq cd buf pos n = Some (vs, ps) \<and> tr1 = tr @ map Load_call ps \<and>
           rank_slice p1 n src = vs)) \<and>
     (e = Some ArchiveException \<longrightarrow> decode_seq cd buf pos n = None)"
proof (cases p)
  case None
  from load_values_None_ptr [OF assms [unfolded None]]
  have "p1 = None" "tr1 = tr" "e = None \<longrightarrow> n = 0" by auto
  moreover have "e \<noteq> Some ArchiveException"
    using assms [unfolded None] by (subst (asm) load_values.simps) (auto split: if_splits)
  ultimately show ?thesis using None by (auto simp: slice_None)
next
  case (Some out)
  from load_values_result [OF assms [unfolded Some]]
  obtain out' where o: "p1 = Some out'" "length out' = length out"
    and fr: "\<forall>x. x < n * src + 0 \<or> n * src + n \<le> x \<longrightarrow> out' ! x = out ! x"
    and okc: "e = None \<longrightarrow>
        (\<exists>vs ps. decode_seq cd buf pos (n - 0) = Some (vs, ps) \<and> tr1 = tr @ map Load_call ps \<and>
           take (n - 0) (drop (n * src + 0) out') = vs)"
    and failc: "e = Some ArchiveException \<longrightarrow> decode_seq cd buf pos (n - 0) = None"
    by blast
  have "\<forall>j. j \<noteq> src \<longrightarrow> rank_slice p1 n j = rank_slice p n j"
    using slice_frame [OF o(2), of n src] fr by (simp add: o(1) Some)
  moreover have "e = None \<longrightarrow>
        (\<exists>vs ps. decode_seq cd buf pos n = Some (vs, ps) \<and> tr1 = tr @ map Load_call ps \<and>
           rank_slice p1 n src = vs)"
    using okc by (simp add: o(1) slice_Some mult.commute)
  ultimately show ?thesis using failc by simp
qed

lemma store_slices:
  assumes "store p (n * src) xs = Inr p1" "length xs = n"
  shows "rank_slice p1 n src = xs \<and> (\<forall>j. j \<noteq> src \<longrightarrow> rank_slice p1 n j = rank_slice p n j)"
proof (cases "xs = []")
  case True
  then show ?thesis using assms by (auto simp: store_def rank_slice_def split: option.splits)
next
  case False
  with assms obtain buf where b: "p = Some buf" "n * src + n \<le> length buf"
    "p1 = Some (take (n * src) buf @ xs @ drop (n * src + n) buf)"
    by (auto simp: store_def split: option.splits if_splits)
  let ?out = "take (n * src) buf @ xs @ drop (n * src + n) buf"
  have len: "length ?out = length buf" using b(2) assms(2) by simp
  have fr: "\<forall>x. x < length buf \<and> (x < n * src \<or> n * src + n \<le> x) \<longrightarrow> ?out ! x = buf ! x"
  proof (intro allI impI)
    fix x assume xx: "x < length buf \<and> (x < n * src \<or> n * src + n \<le> x)"
    then have "x < n * src \<or> n * src + n \<le> x" by simp
    then show "?out ! x = buf ! x"
    proof
      assume "x < n * src"
      then show ?thesis using b(2) by (simp add: nth_append)
    next
      assume x: "n * src + n \<le> x"
      then have "?out ! x = (xs @ drop (n * src + n) buf) ! (x - n * src)"
        using b(2) by (simp add: nth_append)
      also have "\<dots> = drop (n * src + n) buf ! (x - n * src - n)"
      proof -
        have "\<not> x - n * src < length xs" using x assms(2) by linarith
        then show ?thesis using assms(2) by (simp add: nth_append)
      qed
      also have "\<dots> = buf ! x"
        using x xx b(2) by simp
      finally show ?thesis .
    qed
  qed
  have "rank_slice p1 n src = xs"
    using b(2) assms(2) by (simp add: b(3) slice_Some mult.commute)
  moreover have "\<forall>j. j \<noteq> src \<longrightarrow> rank_slice p1 n j = rank_slice p n j"
    using slice_frame [OF len, of n src] fr by (simp add: b(1,3))
  ultimately show ?thesis by simp
qed

lemma sender_values_root:
  "sender_values cd root recv_buffer offsets in_values n root = Some (take n in_values)"
  by (simp add: sender_values_def)

lemma sender_loads_root: "sender_loads cd root recv_buffer offsets n root = []"
  by (simp add: sender_loads_def)

lemma unpack_loop_frame:
  "unpack_loop cd nproc root recv_buffer offsets in_values n src p tr = (e, p', tr') \<Longrightarrow>
   \<forall>k. k < src \<longrightarrow> rank_slice p' n k = rank_slice p n k"
proof (induction "nproc - src" arbitrary: src p tr)
  case 0
  then show ?case by (simp add: unpack_loop_done)
next
  case (Suc d)
  then have lt: "src < nproc" and d: "d = nproc - Suc src" by auto
  have ih: "\<And>p1 tr1. unpack_loop cd nproc root recv_buffer offsets in_values n (Suc src) p1 tr1 =
      (e, p', tr') \<Longrightarrow> \<forall>k. k < Suc src \<longrightarrow> rank_slice p' n k = rank_slice p1 n k"
    using Suc.hyps(1) [OF d] by simp
  show ?case
  proof (cases "src = root")
    case True
    note run = Suc.prems [unfolded unpack_loop_root [OF lt True]]
    show ?thesis
    proof (cases "\<not> in_int_range (int n * int src) \<or> length in_values < n")
      case True
      with run show ?thesis by (auto split: if_splits)
    next
      case False
      show ?thesis
      proof (cases "store p (n * src) (take n in_values)")
        case (Inl err)
        with run False show ?thesis by auto
      next
        case (Inr p1)
        with run False
        have "unpack_loop cd nproc root recv_buffer offsets in_values n (Suc src) p1 tr = (e, p', tr')"
          by simp
        from ih [OF this] store_slices [OF Inr] False show ?thesis by simp
      qed
    qed
  next
    case False
    note run = Suc.prems [unfolded unpack_loop_other [OF lt False]]
    show ?thesis
    proof (cases "length offsets \<le> src")
      case True
      with run show ?thesis by simp
    next
      case bound: False
      obtain e1 p1 tr1 where l:
        "load_values cd recv_buffer (size_t_of_int (offsets ! src)) src 0 n p tr = (e1, p1, tr1)"
        by (metis prod_cases3)
      note sl = load_values_slices [OF l]
      show ?thesis
      proof (cases e1)
        case None
        with run bound l
        have "unpack_loop cd nproc root recv_buffer offsets in_values n (Suc src) p1 tr1 = (e, p', tr')"
          by simp
        from ih [OF this] sl show ?thesis by simp
      next
        case (Some err)
        with run bound l have "p' = p1" by simp
        with sl show ?thesis by simp
      qed
    qed
  qed
qed

lemma unpack_loop_ok:
  "unpack_loop cd nproc root recv_buffer offsets in_values n src p tr = (None, p', tr') \<Longrightarrow>
   (\<forall>k. src \<le> k \<and> k < nproc \<longrightarrow>
      sender_values cd root recv_buffer offsets in_values n k = Some (rank_slice p' n k)) \<and>
   tr' = tr @ map Load_call (concat (map (sender_loads cd root recv_buffer offsets n) [src..<nproc]))"
proof (induction "nproc - src" arbitrary: src p tr)
  case 0
  then show ?case by (auto simp: unpack_loop_done)
next
  case (Suc d)
  then have lt: "src < nproc" and d: "d = nproc - Suc src" by auto
  have ih: "\<And>p1 tr1. unpack_loop cd nproc root recv_buffer offsets in_values n (Suc src) p1 tr1 =
      (None, p', tr') \<Longrightarrow>
      (\<forall>k. Suc src \<le> k \<and> k < nproc \<longrightarrow>
         sender_values cd root recv_buffer offsets in_values n k = Some (rank_slice p' n k)) \<and>
      tr' = tr1 @ map Load_call
        (concat (map (sender_loads cd root recv_buffer offsets n) [Suc src..<nproc]))"
    using Suc.hyps(1) [OF d] by simp
  have upt: "[src..<nproc] = src # [Suc src..<nproc]" using lt by (rule upt_conv_Cons)
  have split: "\<And>P. P src \<Longrightarrow> (\<forall>k. Suc src \<le> k \<and> k < nproc \<longrightarrow> P k) \<Longrightarrow>
      (\<forall>k. src \<le> k \<and> k < nproc \<longrightarrow> P k)"
    by (metis Suc_leI le_neq_implies_less)
  show ?case
  proof (cases "src = root")
    case True
    note run = Suc.prems [unfolded unpack_loop_root [OF lt True]]
    from run have c: "in_int_range (int n * int src)" "\<not> length in_values < n"
      by (auto split: if_splits)
    from run c obtain p1 where st: "store p (n * src) (take n in_values) = Inr p1"
      and rec: "unpack_loop cd nproc root recv_buffer offsets in_values n (Suc src) p1 tr = (None, p', tr')"
      by (cases "store p (n * src) (take n in_values)") auto
    have "rank_slice p1 n src = take n in_values" using store_slices [OF st] c by simp
    moreover have "rank_slice p' n src = rank_slice p1 n src"
      using unpack_loop_frame [OF rec] by simp
    ultimately have here: "sender_values cd root recv_buffer offsets in_values n src =
        Some (rank_slice p' n src)"
      using True by (simp add: sender_values_root)
    have lo: "sender_loads cd root recv_buffer offsets n src = []"
      using True by (simp add: sender_loads_root)
    from ih [OF rec] have rest: "\<forall>k. Suc src \<le> k \<and> k < nproc \<longrightarrow>
         sender_values cd root recv_buffer offsets in_values n k = Some (rank_slice p' n k)"
      and tr': "tr' = tr @ map Load_call
        (concat (map (sender_loads cd root recv_buffer offsets n) [Suc src..<nproc]))"
      by simp_all
    have "\<forall>k. src \<le> k \<and> k < nproc \<longrightarrow>
         sender_values cd root recv_buffer offsets in_values n k = Some (rank_slice p' n k)"
      using here rest by (rule split)
    then show ?thesis using tr' by (simp add: upt lo)
  next
    case False
    note run = Suc.prems [unfolded unpack_loop_other [OF lt False]]
    from run have bound: "\<not> length offsets \<le> src" by (auto split: if_splits)
    obtain e1 p1 tr1 where l:
      "load_values cd recv_buffer (size_t_of_int (offsets ! src)) src 0 n p tr = (e1, p1, tr1)"
      by (metis prod_cases3)
    from run bound l have e1: "e1 = None"
      and rec: "unpack_loop cd nproc root recv_buffer offsets in_values n (Suc src) p1 tr1 = (None, p', tr')"
      by (cases e1; simp)+
    from load_values_slices [OF l] e1 obtain vs ps where
      dec: "decode_seq cd recv_buffer (size_t_of_int (offsets ! src)) n = Some (vs, ps)"
      and tr1: "tr1 = tr @ map Load_call ps" and sl: "rank_slice p1 n src = vs"
      by blast
    have "rank_slice p' n src = rank_slice p1 n src"
      using unpack_loop_frame [OF rec] by simp
    then have here: "sender_values cd root recv_buffer offsets in_values n src =
        Some (rank_slice p' n src)"
      using False dec sl by (simp add: sender_values_def)
    have lo: "sender_loads cd root recv_buffer offsets n src = ps"
      using False dec by (simp add: sender_loads_def)
    from ih [OF rec] have rest: "\<forall>k. Suc src \<le> k \<and> k < nproc \<longrightarrow>
         sender_values cd root recv_buffer offsets in_values n k = Some (rank_slice p' n k)"
      and tr': "tr' = tr1 @ map Load_call
        (concat (map (sender_loads cd root recv_buffer offsets n) [Suc src..<nproc]))"
      by simp_all
    have "\<forall>k. src \<le> k \<and> k < nproc \<longrightarrow>
         sender_values cd root recv_buffer offsets in_values n k = Some (rank_slice p' n k)"
      using here rest by (rule split)
    then show ?thesis using tr' by (simp add: upt lo tr1)
  qed
qed

lemma store_not_archive: "store p pos xs \<noteq> Inl ArchiveException"
  by (auto simp: store_def split: option.splits)

lemma load_values_error_cases:
  "load_values cd buf pos src 0 n p tr = (Some err, p1, tr1) \<Longrightarrow>
   err \<noteq> ArchiveException \<or> decode_seq cd buf pos n = None"
  using load_values_slices [of cd buf pos src n p tr "Some err" p1 tr1] by auto

lemma unpack_loop_fail:
  "unpack_loop cd nproc root recv_buffer offsets in_values n src p tr =
     (Some ArchiveException, p', tr') \<Longrightarrow>
   \<exists>k. src \<le> k \<and> k < nproc \<and> k \<noteq> root \<and>
       decode_seq cd recv_buffer (size_t_of_int (offsets ! k)) n = None \<and>
       (\<forall>j. src \<le> j \<and> j < k \<longrightarrow>
          sender_values cd root recv_buffer offsets in_values n j = Some (rank_slice p' n j)) \<and>
       (\<forall>j. k < j \<longrightarrow> rank_slice p' n j = rank_slice p n j)"
proof (induction "nproc - src" arbitrary: src p tr)
  case 0
  then show ?case by (simp add: unpack_loop_done)
next
  case (Suc d)
  then have lt: "src < nproc" and d: "d = nproc - Suc src" by auto
  have ih: "\<And>p1 tr1. unpack_loop cd nproc root recv_buffer offsets in_values n (Suc src) p1 tr1 =
      (Some ArchiveException, p', tr') \<Longrightarrow>
      \<exists>k. Suc src \<le> k \<and> k < nproc \<and> k \<noteq> root \<and>
       decode_seq cd recv_buffer (size_t_of_int (offsets ! k)) n = None \<and>
       (\<forall>j. Suc src \<le> j \<and> j < k \<longrightarrow>
          sender_values cd root recv_buffer offsets in_values n j = Some (rank_slice p' n j)) \<and>
       (\<forall>j. k < j \<longrightarrow> rank_slice p' n j = rank_slice p1 n j)"
    using Suc.hyps(1) [OF d] by simp
  have step: "\<And>p1 tr1. unpack_loop cd nproc root recv_buffer offsets in_values n (Suc src) p1 tr1 =
      (Some ArchiveException, p', tr') \<Longrightarrow>
      rank_slice p1 n src = the (sender_values cd root recv_buffer offsets in_values n src) \<Longrightarrow>
      sender_values cd root recv_buffer offsets in_values n src \<noteq> None \<Longrightarrow>
      (\<forall>j. j \<noteq> src \<longrightarrow> rank_slice p1 n j = rank_slice p n j) \<Longrightarrow> ?case"
  proof -
    fix p1 tr1
    assume rec: "unpack_loop cd nproc root recv_buffer offsets in_values n (Suc src) p1 tr1 =
      (Some ArchiveException, p', tr')"
      and here: "rank_slice p1 n src = the (sender_values cd root recv_buffer offsets in_values n src)"
      and ne: "sender_values cd root recv_buffer offsets in_values n src \<noteq> None"
      and others: "\<forall>j. j \<noteq> src \<longrightarrow> rank_slice p1 n j = rank_slice p n j"
    from ih [OF rec] obtain k where k: "Suc src \<le> k" "k < nproc" "k \<noteq> root"
      "decode_seq cd recv_buffer (size_t_of_int (offsets ! k)) n = None"
      and low: "\<forall>j. Suc src \<le> j \<and> j < k \<longrightarrow>
          sender_values cd root recv_buffer offsets in_values n j = Some (rank_slice p' n j)"
      and high: "\<forall>j. k < j \<longrightarrow> rank_slice p' n j = rank_slice p1 n j"
      by blast
    have "rank_slice p' n src = rank_slice p1 n src"
      using unpack_loop_frame [OF rec] by simp
    then have s: "sender_values cd root recv_buffer offsets in_values n src = Some (rank_slice p' n src)"
      using here ne by auto
    have low': "\<forall>j. src \<le> j \<and> j < k \<longrightarrow>
          sender_values cd root recv_buffer offsets in_values n j = Some (rank_slice p' n j)"
    proof (intro allI impI)
      fix j assume j: "src \<le> j \<and> j < k"
      show "sender_values cd root recv_buffer offsets in_values n j = Some (rank_slice p' n j)"
      proof (cases "j = src")
        case True
        then show ?thesis using s by simp
      next
        case False
        then show ?thesis using j low by simp
      qed
    qed
    have high': "\<forall>j. k < j \<longrightarrow> rank_slice p' n j = rank_slice p n j"
      using high others k(1) by auto
    from k low' high' show ?case
      by (intro exI [of _ k]) simp
  qed
  show ?case
  proof (cases "src = root")
    case True
    note run = Suc.prems [unfolded unpack_loop_root [OF lt True]]
    from run have c: "in_int_range (int n * int src)" "\<not> length in_values < n"
      by (auto split: if_splits)
    from run c obtain p1 where st: "store p (n * src) (take n in_values) = Inr p1"
      and rec: "unpack_loop cd nproc root recv_buffer offsets in_values n (Suc src) p1 tr =
        (Some ArchiveException, p', tr')"
      using store_not_archive [of p "n * src" "take n in_values"]
      by (cases "store p (n * src) (take n in_values)") auto
    have sv: "sender_values cd root recv_buffer offsets in_values n src = Some (take n in_values)"
      using True by (simp add: sender_values_root)
    show ?thesis
      using rec
    proof (rule step)
      show "rank_slice p1 n src = the (sender_values cd root recv_buffer offsets in_values n src)"
        using store_slices [OF st] c sv by simp
      show "sender_values cd root recv_buffer offsets in_values n src \<noteq> None" using sv by simp
      show "\<forall>j. j \<noteq> src \<longrightarrow> rank_slice p1 n j = rank_slice p n j"
        using store_slices [OF st] c by simp
    qed
  next
    case False
    note run = Suc.prems [unfolded unpack_loop_other [OF lt False]]
    from run have bound: "\<not> length offsets \<le> src" by (auto split: if_splits)
    obtain e1 p1 tr1 where l:
      "load_values cd recv_buffer (size_t_of_int (offsets ! src)) src 0 n p tr = (e1, p1, tr1)"
      by (metis prod_cases3)
    note sl = load_values_slices [OF l]
    show ?thesis
    proof (cases e1)
      case None
      with run bound l
      have rec: "unpack_loop cd nproc root recv_buffer offsets in_values n (Suc src) p1 tr1 =
        (Some ArchiveException, p', tr')" by simp
      from sl None obtain vs ps where
        dec: "decode_seq cd recv_buffer (size_t_of_int (offsets ! src)) n = Some (vs, ps)"
        and v: "rank_slice p1 n src = vs" by blast
      have sv: "sender_values cd root recv_buffer offsets in_values n src = Some vs"
        using False dec by (simp add: sender_values_def)
      show ?thesis
        using rec
      proof (rule step)
        show "rank_slice p1 n src = the (sender_values cd root recv_buffer offsets in_values n src)"
          using sv v by simp
        show "sender_values cd root recv_buffer offsets in_values n src \<noteq> None" using sv by simp
        show "\<forall>j. j \<noteq> src \<longrightarrow> rank_slice p1 n j = rank_slice p n j" using sl by simp
      qed
    next
      case (Some err)
      with run bound l have eq: "err = ArchiveException" "p' = p1" by simp_all
      have "decode_seq cd recv_buffer (size_t_of_int (offsets ! src)) n = None"
        using sl Some eq by simp
      moreover have "\<forall>j. src < j \<longrightarrow> rank_slice p' n j = rank_slice p n j"
        using sl eq by simp
      ultimately show ?thesis
        using lt False by (intro exI [of _ src]) auto
    qed
  qed
qed

lemma save_values_eq:
  "i \<le> n \<Longrightarrow>
   save_values cd in_values i n oa =
     (if i < n \<and> length in_values < n then Inl OutOfBounds
      else Inr (oa @ concat (map (encode cd) (drop i (take n in_values)))))"
proof (induction "n - i" arbitrary: i oa)
  case 0
  then show ?case by (subst save_values.simps) simp
next
  case (Suc d)
  then have lt: "i < n" and d: "d = n - (i + 1)" and si: "i + 1 \<le> n" by auto
  show ?case
  proof (cases "length in_values \<le> i")
    case True
    then show ?thesis using lt by (subst save_values.simps) simp
  next
    case False
    have "save_values cd in_values i n oa =
          save_values cd in_values (i + 1) n (oa @ encode cd (in_values ! i))"
      using lt False by (subst save_values.simps) simp
    also have "\<dots> = (if i + 1 < n \<and> length in_values < n then Inl OutOfBounds
      else Inr ((oa @ encode cd (in_values ! i)) @
             concat (map (encode cd) (drop (i + 1) (take n in_values)))))"
      by (rule Suc.hyps(1) [OF d si])
    also have "\<dots> = (if i < n \<and> length in_values < n then Inl OutOfBounds
      else Inr (oa @ concat (map (encode cd) (drop i (take n in_values)))))"
    proof (cases "length in_values < n")
      case True
      then show ?thesis using False lt by simp
    next
      case ge: False
      have "drop i (take n in_values) = in_values ! i # drop (Suc i) (take n in_values)"
        using lt ge by (simp add: Cons_nth_drop_Suc [symmetric])
      then show ?thesis using ge by simp
    qed
    finally show ?thesis .
  qed
qed

lemma save_values_payload:
  "save_values cd in_values 0 n [] =
     (if length in_values < n then Inl OutOfBounds else Inr (encoded_payload cd in_values n))"
  using save_values_eq [of 0 n cd in_values "[]"] by (auto simp: encoded_payload_def)

lemma accumulate_Inr: "accumulate xs init = Inr t \<Longrightarrow> t = init + sum_list xs"
proof (induction xs arbitrary: init)
  case Nil
  then show ?case by simp
next
  case (Cons x xs)
  from Cons.prems have "accumulate xs (init + x) = Inr t" by (simp split: if_splits)
  from Cons.IH [OF this] show ?case by simp
qed

lemma accumulate_Inl: "accumulate xs init = Inl e \<Longrightarrow> e = SignedOverflow"
  by (induction xs arbitrary: init) (auto split: if_splits)

lemma sizes2offset_loop_Inl:
  "sizes2offset_loop i sizes offsets = Inl e \<Longrightarrow> e = OutOfBounds \<or> e = SignedOverflow"
proof (induction i sizes offsets rule: sizes2offset_loop.induct)
  case (1 i sizes offsets)
  note run = "1.prems" [unfolded sizes2offset_loop.simps [of i sizes offsets]]
  show ?case
  proof (cases "i < size_t_sub (length sizes) 1 \<and> \<not> (length offsets \<le> i + 1 \<or> length sizes \<le> i) \<and>
      \<not> \<not> in_int_range (offsets ! i + sizes ! i) \<and> \<not> INT_MAX \<le> int i")
    case True
    with run have "sizes2offset_loop (i + 1) sizes (offsets[i + 1 := offsets ! i + sizes ! i]) = Inl e"
      by simp
    with True "1.IH" show ?thesis by blast
  next
    case False
    with run show ?thesis by (auto split: if_splits)
  qed
qed

lemma sizes2offset_Inl:
  "sizes2offset nd sizes offsets = Inl e \<Longrightarrow>
   e = AssertionFailed \<or> e = OutOfBounds \<or> e = SignedOverflow"
  by (auto simp: sizes2offset_def split: if_splits dest: sizes2offset_loop_Inl)

lemma gatherv_place_Inl:
  "gatherv_place block recvcounts displs ks buf = Inl e \<Longrightarrow> e = OutOfBounds \<or> e = Mismatch"
  by (induction ks arbitrary: buf) (auto split: if_splits option.splits)

lemma MPI_Gatherv_Inl:
  "MPI_Gatherv env comm sendbuf sendcount recvbuf recvcounts displs root = Inl e \<Longrightarrow>
   e = OutOfBounds \<or> e = Mismatch"
  by (auto simp: MPI_Gatherv_def split: if_splits sum.splits dest: gatherv_place_Inl)

lemma MPI_Gather_Inl:
  "MPI_Gather env comm sendbuf n recvbuf root = Inl e \<Longrightarrow>
   e = OutOfBounds \<or> e = Mismatch \<or> e = NullPointer"
  by (auto simp: MPI_Gather_def store_def split: if_splits sum.splits option.splits)

lemma gather_impl_true_not_archive:
  "gather_impl_true_root env comm in_values n p root = (Some e, p', tr) \<Longrightarrow> e \<noteq> ArchiveException"
  "gather_impl_true_nonroot env comm in_values n root = (Some e, tr) \<Longrightarrow> e \<noteq> ArchiveException"
  by (auto simp: gather_impl_true_root_def gather_impl_true_nonroot_def BOOST_MPI_CHECK_RESULT_def
           split: sum.splits prod.splits if_splits dest: MPI_Gather_Inl)

lemma size_exchange_not_archive:
  "gather_scalar_vec nd mpl_true dflt env comm x v root = (Some e, v', tr) \<Longrightarrow> e \<noteq> ArchiveException"
  by (auto simp: gather_scalar_vec_def gather_scalar_ptr_def gather_scalar_nonroot_def mpl_true_def
           front_address_def Let_def split: if_splits prod.splits
           dest: gather_impl_true_not_archive)

lemma gather_impl_false_phases:
  assumes run: "gather_impl_false nd cd env comm in_values n p root = (e, p', tr')"
    and rt: "comm_rank comm = root"
    and e: "e = None \<or> e = Some ArchiveException"
  shows "\<exists>asizes tr0 offsets total_size recv_buffer.
     \<not> length in_values < n \<and>
     gather_scalar_vec nd mpl_true 0 (size_exchange env) comm
       (int_of_size_t (length (encoded_payload cd in_values n))) [] root = (None, asizes, tr0) \<and>
     sizes2offset nd asizes (replicate (comm_size comm) 0) = Inr offsets \<and>
     accumulate asizes 0 = Inr total_size \<and> 0 \<le> total_size \<and>
     MPI_Gatherv (payload_exchange env) comm (encoded_payload cd in_values n)
       (int_of_size_t (length (encoded_payload cd in_values n)))
       (replicate (nat total_size) 0) asizes offsets root = Inr (MPI_SUCCESS, recv_buffer) \<and>
     unpack_loop cd (comm_size comm) root recv_buffer offsets in_values n 0 p
       (tr0 @ [Gatherv_call (encoded_payload cd in_values n)
                 (int_of_size_t (length (encoded_payload cd in_values n))) root]) = (e, p', tr')"
  using run rt e unfolding gather_impl_false_def Let_def save_values_payload
  by (auto simp: BOOST_MPI_CHECK_RESULT_def
           split: if_splits sum.splits prod.splits option.splits
           dest: size_exchange_not_archive sizes2offset_Inl accumulate_Inl MPI_Gatherv_Inl)

lemma those_map_Some:
  "those (map f ks) = Some bs \<longleftrightarrow> length bs = length ks \<and> (\<forall>i<length ks. f (ks ! i) = Some (bs ! i))"
proof (induction ks arbitrary: bs)
  case Nil
  then show ?case by auto
next
  case (Cons k ks)
  show ?case
  proof (cases "f k")
    case None
    then show ?thesis by (auto simp: nth_Cons split: nat.splits)
  next
    case (Some b)
    show ?thesis
    proof (cases "those (map f ks)")
      case None
      have "\<not> (length bs = length (k # ks) \<and> (\<forall>i<length (k # ks). f ((k # ks) ! i) = Some (bs ! i)))"
      proof
        assume a: "length bs = length (k # ks) \<and> (\<forall>i<length (k # ks). f ((k # ks) ! i) = Some (bs ! i))"
        then obtain b' bs' where bs: "bs = b' # bs'" by (cases bs) auto
        have "length bs' = length ks \<and> (\<forall>i<length ks. f (ks ! i) = Some (bs' ! i))"
          using a bs by auto
        then have "those (map f ks) = Some bs'" using Cons.IH by simp
        with None show False by simp
      qed
      with None Some show ?thesis by simp
    next
      case (Some bs0)
      note ih = Cons.IH [of bs0, simplified Some, simplified]
      show ?thesis
      proof
        assume "those (map f (k # ks)) = Some bs"
        then have bs: "bs = b # bs0" using \<open>f k = Some b\<close> Some by simp
        show "length bs = length (k # ks) \<and> (\<forall>i<length (k # ks). f ((k # ks) ! i) = Some (bs ! i))"
          using ih \<open>f k = Some b\<close> by (auto simp: bs nth_Cons split: nat.splits)
      next
        assume a: "length bs = length (k # ks) \<and> (\<forall>i<length (k # ks). f ((k # ks) ! i) = Some (bs ! i))"
        then obtain b' bs' where bs: "bs = b' # bs'" by (cases bs) auto
        have b': "b' = b" using a bs \<open>f k = Some b\<close> by auto
        have "length bs' = length ks \<and> (\<forall>i<length ks. f (ks ! i) = Some (bs' ! i))"
          using a bs by auto
        then have "those (map f ks) = Some bs'" using Cons.IH by simp
        then show "those (map f (k # ks)) = Some bs"
          using \<open>f k = Some b\<close> bs b' by simp
      qed
    qed
  qed
qed

lemma those_upt_Some:
  "those (map f [0..<N]) = Some bs \<longleftrightarrow> length bs = N \<and> (\<forall>i<N. f i = Some (bs ! i))"
  unfolding those_map_Some by auto

lemma size_exchange_nonroot:
  "comm_rank comm \<noteq> root \<Longrightarrow>
   gather_scalar_vec nd mpl_true dflt env comm x v root =
     (BOOST_MPI_CHECK_RESULT (gather_status env), v, [Gather_call [x] (Suc 0) root])"
  by (simp add: gather_scalar_vec_def gather_scalar_nonroot_def mpl_true_def
      gather_impl_true_nonroot_def MPI_Gather_def BOOST_MPI_CHECK_RESULT_def)

lemma concat_singletons: "\<forall>b\<in>set bs. length b = Suc 0 \<Longrightarrow> length (concat bs) = length bs"
  by (induction bs) auto

lemma size_exchange_root:
  assumes "comm_rank comm = root" "gather_status env = MPI_SUCCESS" "0 < comm_size comm"
  shows "gather_scalar_vec nd mpl_true 0 env comm x [] root =
     (case those (map (\<lambda>k. if k = root then Some [x] else gather_block env (Suc 0) root k)
                  [0..<comm_size comm]) of
        None \<Rightarrow> (Some Mismatch, replicate (comm_size comm) 0, [])
      | Some blocks \<Rightarrow> (None, concat blocks, [Gather_call [x] (Suc 0) root]))"
proof -
  let ?f = "\<lambda>k. if k = root then Some [x] else gather_block env (Suc 0) root k"
  have run: "gather_scalar_vec nd mpl_true 0 env comm x [] root =
     (case those (map ?f [0..<comm_size comm]) of
        None \<Rightarrow> (Some Mismatch, replicate (comm_size comm) 0, [])
      | Some blocks \<Rightarrow>
          (case store (Some (replicate (comm_size comm) 0)) 0 (concat blocks) of
             Inl e \<Rightarrow> (Some e, replicate (comm_size comm) 0, [])
           | Inr p \<Rightarrow> (None, vector_after (replicate (comm_size comm) 0) p,
                        [Gather_call [x] (Suc 0) root])))"
    using assms
    by (simp add: gather_scalar_vec_def gather_scalar_ptr_def mpl_true_def gather_impl_true_root_def
        MPI_Gather_def resize_def vector_after_def front_address_def Let_def
        BOOST_MPI_CHECK_RESULT_def
        split: option.splits sum.splits cong: if_cong)
  show ?thesis
  proof (cases "those (map ?f [0..<comm_size comm])")
    case None
    then show ?thesis using run by simp
  next
    case (Some blocks)
    then have len: "length blocks = comm_size comm"
      and each: "\<forall>i<comm_size comm. ?f i = Some (blocks ! i)"
      unfolding those_upt_Some by blast+
    have "\<forall>b\<in>set blocks. length b = Suc 0"
    proof
      fix b assume "b \<in> set blocks"
      then obtain i where i: "i < length blocks" "blocks ! i = b" by (auto simp: in_set_conv_nth)
      then have "?f i = Some b" using each len by simp
      then show "length b = Suc 0"
        by (auto simp: gather_block_def split: if_splits option.splits)
    qed
    then have cl: "length (concat blocks) = comm_size comm"
      using len by (simp add: concat_singletons)
    have "store (Some (replicate (comm_size comm) 0)) 0 (concat blocks) = Inr (Some (concat blocks))"
    proof (cases "concat blocks = []")
      case True
      then have "length (concat blocks) = 0" by (simp only: list.size)
      then have "comm_size comm = 0" using cl by (simp only:)
      then show ?thesis using True by (simp add: store_def)
    next
      case False
      then show ?thesis using cl by (auto simp: store_def)
    qed
    then show ?thesis using run Some by (simp add: vector_after_def)
  qed
qed

lemma int_of_size_t_le: "int_of_size_t s \<le> int s"
  by (simp add: int_of_size_t_def signed_take_bit_int_less_eq_self_iff)

lemma int_of_size_t_small: "int s \<le> INT_MAX \<Longrightarrow> int_of_size_t s = int s"
  by (simp add: int_of_size_t_def INT_MAX_def signed_take_bit_int_eq_self)

lemma gather_impl_false_nonroot_run:
  assumes nr: "comm_rank comm \<noteq> root"
    and st: "gather_status (size_exchange env) = MPI_SUCCESS"
      "gatherv_status (payload_exchange env) = MPI_SUCCESS"
  shows "gather_impl_false nd cd env comm in_values n p root =
     (if length in_values < n then (Some OutOfBounds, p, [])
      else if int_of_size_t (length (encoded_payload cd in_values n)) < 0
        then (Some Mismatch, p,
              [Gather_call [int_of_size_t (length (encoded_payload cd in_values n))] (Suc 0) root])
      else (None, p,
            [Gather_call [int_of_size_t (length (encoded_payload cd in_values n))] (Suc 0) root,
             Gatherv_call (encoded_payload cd in_values n)
               (int_of_size_t (length (encoded_payload cd in_values n))) root]))"
  using nr st int_of_size_t_le [of "length (encoded_payload cd in_values n)"]
  by (simp add: gather_impl_false_def Let_def save_values_payload size_exchange_nonroot
      BOOST_MPI_CHECK_RESULT_def MPI_Gatherv_def)

lemma peer_events_false:
  assumes "k \<noteq> root"
  shows "peer_events (mpl_false nd cd) (sender_ser_env MPI_SUCCESS MPI_SUCCESS) N root n vals k =
     (if length (vals k) < n then []
      else if int_of_size_t (length (encoded_payload cd (vals k) n)) < 0
        then [Gather_call [int_of_size_t (length (encoded_payload cd (vals k) n))] (Suc 0) root]
      else [Gather_call [int_of_size_t (length (encoded_payload cd (vals k) n))] (Suc 0) root,
            Gatherv_call (encoded_payload cd (vals k) n)
              (int_of_size_t (length (encoded_payload cd (vals k) n))) root])"
proof -
  let ?c = "\<lparr>comm_rank = k, comm_size = N\<rparr>"
  have "gather_impl_false nd cd (sender_ser_env MPI_SUCCESS MPI_SUCCESS) ?c (vals k) n None root =
     (if length (vals k) < n then (Some OutOfBounds, None, [])
      else if int_of_size_t (length (encoded_payload cd (vals k) n)) < 0
        then (Some Mismatch, None,
              [Gather_call [int_of_size_t (length (encoded_payload cd (vals k) n))] (Suc 0) root])
      else (None, None,
            [Gather_call [int_of_size_t (length (encoded_payload cd (vals k) n))] (Suc 0) root,
             Gatherv_call (encoded_payload cd (vals k) n)
               (int_of_size_t (length (encoded_payload cd (vals k) n))) root]))"
    using assms by (intro gather_impl_false_nonroot_run) (simp_all add: sender_ser_env_def sender_gather_env_def)
  then show ?thesis
    using assms
    by (simp add: peer_events_def gather_array_ptr_def mpl_false_def gather_impl_false_nonroot_def)
qed


lemma group_size_block:
  assumes "k \<noteq> root"
  shows "gather_block (size_exchange (group_ser_env
           (peer_events (mpl_false nd cd) (sender_ser_env MPI_SUCCESS MPI_SUCCESS) N root n vals)))
           (Suc 0) root k =
     (if length (vals k) < n then None
      else Some [int_of_size_t (length (encoded_payload cd (vals k) n))])"
  using assms by (simp add: gather_block_def group_ser_env_def group_gather_env_def peer_events_false)

lemma group_payload_block:
  assumes "k \<noteq> root"
  shows "gatherv_block (payload_exchange (group_ser_env
           (peer_events (mpl_false nd cd) (sender_ser_env MPI_SUCCESS MPI_SUCCESS) N root n vals)))
           root k =
     (if length (vals k) < n \<or> INT_MAX < int (length (encoded_payload cd (vals k) n)) then None
      else Some (encoded_payload cd (vals k) n))"
proof -
  let ?len = "length (encoded_payload cd (vals k) n)"
  have a: "int_of_size_t ?len = int ?len \<longleftrightarrow> int ?len \<le> INT_MAX"
    by (auto simp: int_of_size_t_def INT_MAX_def signed_take_bit_int_eq_self_iff)
  have b: "int_of_size_t ?len < 0 \<Longrightarrow> int_of_size_t ?len \<noteq> int ?len" by simp
  show ?thesis
    using assms a b
    by (auto simp: gatherv_block_def group_ser_env_def peer_events_false)
qed












lemma concat_singletons_nth:
  "\<forall>j<length bs. bs ! j = [f j] \<Longrightarrow> concat bs = map f [0..<length bs]"
proof (induction bs rule: rev_induct)
  case Nil
  then show ?case by simp
next
  case (snoc b bs)
  have "\<forall>j<length bs. bs ! j = [f j]"
  proof (intro allI impI)
    fix j assume "j < length bs"
    then show "bs ! j = [f j]" using snoc.prems [rule_format, of j] by (simp add: nth_append)
  qed
  then have "concat bs = map f [0..<length bs]" by (rule snoc.IH)
  moreover have "b = [f (length bs)]" using snoc.prems [rule_format, of "length bs"] by simp
  ultimately show ?case by simp
qed






lemma upt_3: "[0..<3] = [0, 1, 2]"
  by (simp add: upt_rec)

lemma sample_offsets: "sizes2offset nd [2, 3, 4] (replicate 3 0) = Inr [0, 2, 5]"
  by (simp add: sizes2offset_def sizes2offset_loop.simps size_t_sub_def in_int_range_def
      INT_MAX_def INT_MIN_def numeral_3_eq_3)

lemma sample_unpack:
  "unpack_loop unary_codec 3 0 [1, 0, 1, 1, 0, 1, 1, 1, 0] [0, 2, 5] [1] 1 0 (Some [0, 0, 0]) tr =
   (None, Some [1, 2, 3], tr @ [Load_call 2, Load_call 5])"
  by (simp add: unpack_loop.simps load_values.simps store_def unary_codec_def size_t_of_int_def
      in_int_range_def INT_MAX_def INT_MIN_def Let_def)

lemma impl_select:
  "impl_root mpl_true = gather_impl_true_root"
  "impl_nonroot mpl_true = gather_impl_true_nonroot"
  "impl_root (mpl_false nd cd) = gather_impl_false nd cd"
  "impl_nonroot (mpl_false nd cd) = gather_impl_false_nonroot nd cd"
  by (simp_all add: mpl_true_def mpl_false_def)

lemma group_status:
  "gather_status (group_gather_env ev) = MPI_SUCCESS"
  "gather_status (size_exchange (group_ser_env ev)) = MPI_SUCCESS"
  "gatherv_status (payload_exchange (group_ser_env ev)) = MPI_SUCCESS"
  by (simp_all add: group_ser_env_def group_gather_env_def)

lemma sample_payload: "encoded_payload unary_codec [m] (Suc 0) = replicate m 1 @ [0]"
  by (simp add: encoded_payload_def unary_codec_def)

lemma sample_gatherv:
  "MPI_Gatherv
     (payload_exchange (group_ser_env (peer_events (mpl_false False unary_codec)
        (sender_ser_env MPI_SUCCESS MPI_SUCCESS) 3 0 1 (\<lambda>k. [k + 1]))))
     \<lparr>comm_rank = 0, comm_size = 3\<rparr> [1, 0] 2 (replicate 9 0) [2, 3, 4] [0, 2, 5] 0 =
   Inr (MPI_SUCCESS, [1, 0, 1, 1, 0, 1, 1, 1, 0])"
  by (simp add: MPI_Gatherv_def group_status upt_3 group_payload_block sample_payload INT_MAX_def
      numeral_eq_Suc)

lemma sample_sizes:
  "gather_scalar_vec False mpl_true 0
     (size_exchange (group_ser_env (peer_events (mpl_false False unary_codec)
        (sender_ser_env MPI_SUCCESS MPI_SUCCESS) 3 0 1 (\<lambda>k. [k + 1]))))
     \<lparr>comm_rank = 0, comm_size = 3\<rparr> 2 [] 0 =
   (None, [2, 3, 4], [Gather_call [2] (Suc 0) 0])"
proof -
  have rk: "comm_rank \<lparr>comm_rank = 0, comm_size = 3\<rparr> = 0" by simp
  have sz: "0 < comm_size \<lparr>comm_rank = 0, comm_size = 3\<rparr>" by simp
  show ?thesis
    unfolding size_exchange_root [OF rk group_status(2) sz]
    by (simp add: upt_3 group_size_block sample_payload int_of_size_t_small INT_MAX_def)
qed

lemma sample_run:
  "group_gather_false False unary_codec 3 0 1 (\<lambda>k. [k + 1]) (Some [0, 0, 0]) =
   (None, Some [1, 2, 3],
    [Gather_call [2] (Suc 0) 0, Gatherv_call [1, 0] 2 0, Load_call 2, Load_call 5])"
proof -
  have oa: "encoded_payload unary_codec [Suc 0] (Suc 0) = [1, 0]"
    by (simp add: sample_payload)
  have sz: "gather_scalar_vec False mpl_true 0
     (size_exchange (group_ser_env (peer_events (mpl_false False unary_codec)
        (sender_ser_env MPI_SUCCESS MPI_SUCCESS) 3 0 (Suc 0) (\<lambda>k. [Suc k]))))
     \<lparr>comm_rank = 0, comm_size = 3\<rparr> 2 [] 0 =
   (None, [2, 3, 4], [Gather_call [2] (Suc 0) 0])"
    using sample_sizes by simp
  have gv: "MPI_Gatherv
     (payload_exchange (group_ser_env (peer_events (mpl_false False unary_codec)
        (sender_ser_env MPI_SUCCESS MPI_SUCCESS) 3 0 (Suc 0) (\<lambda>k. [Suc k]))))
     \<lparr>comm_rank = 0, comm_size = 3\<rparr> [1, 0] 2 (replicate 9 0) [2, 3, 4] [0, 2, 5] 0 =
   Inr (MPI_SUCCESS, [1, 0, 1, 1, 0, 1, 1, 1, 0])"
    using sample_gatherv by simp
  have un: "unpack_loop unary_codec 3 0 [1, 0, 1, 1, 0, 1, 1, 1, 0] [0, 2, 5] [Suc 0] (Suc 0) 0
      (Some [0, 0, 0]) [Gather_call [2] (Suc 0) 0, Gatherv_call [1, 0] 2 0] =
   (None, Some [Suc 0, 2, 3],
    [Gather_call [2] (Suc 0) 0, Gatherv_call [1, 0] 2 0, Load_call 2, Load_call 5])"
    using sample_unpack [of "[Gather_call [2] (Suc 0) 0, Gatherv_call [1, 0] 2 0]"] by simp
  show ?thesis
    unfolding group_gather_false_def gather_array_ptr_def
    by (simp add: impl_select gather_impl_false_def save_values_payload oa int_of_size_t_small
        INT_MAX_def INT_MIN_def in_int_range_def sz sample_offsets gv BOOST_MPI_CHECK_RESULT_def un)
qed



lemma cut_short_run:
  "gather_impl_false False unary_codec cut_short_env \<lparr>comm_rank = 0, comm_size = 3\<rparr> [1] 1
     (Some [9, 9, 9]) 0 =
   (Some ArchiveException, Some [1, 9, 9],
    [Gather_call [2] (Suc 0) 0, Gatherv_call [1, 0] 2 0, Load_call 2])"
proof -
  let ?c = "\<lparr>comm_rank = 0, comm_size = 3\<rparr>"
  have rk: "comm_rank ?c = 0" by simp
  have c3: "0 < comm_size ?c" by simp
  have st: "gather_status (size_exchange cut_short_env) = MPI_SUCCESS"
    by (simp add: cut_short_env_def)
  have sz: "gather_scalar_vec False mpl_true 0 (size_exchange cut_short_env) ?c 2 [] 0 =
      (None, [2, 2, 1], [Gather_call [2] (Suc 0) 0])"
    unfolding size_exchange_root [OF rk st c3]
    by (simp add: upt_3 gather_block_def cut_short_env_def)
  have offs: "sizes2offset False [2, 2, 1] (replicate 3 0) = Inr [0, 2, 4]"
    by (simp add: sizes2offset_def sizes2offset_loop.simps size_t_sub_def in_int_range_def
      INT_MAX_def INT_MIN_def numeral_3_eq_3)
  have gv: "MPI_Gatherv (payload_exchange cut_short_env) ?c [1, 0] 2 (replicate 5 0) [2, 2, 1]
      [0, 2, 4] 0 = Inr (MPI_SUCCESS, [1, 0, 1, 1, 1])"
    by (simp add: MPI_Gatherv_def upt_3 gatherv_block_def cut_short_env_def numeral_eq_Suc)
  have un: "unpack_loop unary_codec 3 0 [1, 0, 1, 1, 1] [0, 2, 4] [Suc 0] (Suc 0) 0
      (Some [9, 9, 9]) [Gather_call [2] (Suc 0) 0, Gatherv_call [1, 0] 2 0] =
    (Some ArchiveException, Some [Suc 0, 9, 9],
     [Gather_call [2] (Suc 0) 0, Gatherv_call [1, 0] 2 0, Load_call 2])"
    by (simp add: unpack_loop.simps load_values.simps store_def unary_codec_def size_t_of_int_def
      in_int_range_def INT_MAX_def INT_MIN_def Let_def)
  have oa: "encoded_payload unary_codec [Suc 0] (Suc 0) = [1, 0]"
    by (simp add: sample_payload)
  show ?thesis
    by (simp add: gather_impl_false_def save_values_payload oa int_of_size_t_small
        INT_MAX_def INT_MIN_def in_int_range_def sz offs gv BOOST_MPI_CHECK_RESULT_def un)
qed

lemma sample_run_impl:
  "gather_impl_false False unary_codec
     (group_ser_env (peer_events (mpl_false False unary_codec)
        (sender_ser_env MPI_SUCCESS MPI_SUCCESS) 3 0 1 (\<lambda>k. [k + 1])))
     \<lparr>comm_rank = 0, comm_size = 3\<rparr> [1] 1 (Some [0, 0, 0]) 0 =
   (None, Some [1, 2, 3],
    [Gather_call [2] (Suc 0) 0, Gatherv_call [1, 0] 2 0, Load_call 2, Load_call 5])"
  using sample_run by (simp add: group_gather_false_def gather_array_ptr_def impl_select)

subsection \<open>The two collective calls of the serialized path\<close>

lemma size_exchange_root_trace:
  assumes "comm_rank comm = root"
    and "gather_scalar_vec nd mpl_true dflt env comm x v root = (None, asizes, tr0)"
  shows "tr0 = [Gather_call [x] (Suc 0) root] \<and> gather_status env = MPI_SUCCESS \<and>
    0 < comm_size comm"
  using assms
  by (auto simp: gather_scalar_vec_def gather_scalar_ptr_def impl_select gather_impl_true_root_def
      front_address_def resize_def Let_def MPI_Gather_def BOOST_MPI_CHECK_RESULT_def
      split: sum.splits prod.splits if_splits)

lemma load_values_trace:
  "load_values cd buf pos src i n p tr = (e, p', tr') \<Longrightarrow> \<exists>rest. tr' = tr @ rest"
proof (induction cd buf pos src i n p tr rule: load_values.induct)
  case (1 cd buf pos src i n out_values tr)
  note run = "1.prems" [unfolded load_values.simps [of cd buf pos src i n out_values tr]]
  show ?case
  proof (cases "i < n \<and> \<not> \<not> in_int_range (int n * int src + int i)")
    case False
    with run show ?thesis by (auto split: if_splits)
  next
    case c: True
    show ?thesis
    proof (cases out_values)
      case None
      with run c show ?thesis by simp
    next
      case (Some out)
      show ?thesis
      proof (cases "length out \<le> n * src + i")
        case True
        with run c Some show ?thesis by simp
      next
        case b: False
        show ?thesis
        proof (cases "decode cd buf pos")
          case None
          with run c Some b show ?thesis by auto
        next
          case (Some vp)
          obtain v pos' where vp: "vp = (v, pos')" by (cases vp)
          from run c \<open>out_values = Some out\<close> b Some vp
          have rec: "load_values cd buf pos' src (i + 1) n (Some (out[n * src + i := v]))
              (tr @ [Load_call pos]) = (e, p', tr')"
            by simp
          have "\<exists>rest. tr' = (tr @ [Load_call pos]) @ rest"
            using c \<open>out_values = Some out\<close> b Some vp rec
            by (intro "1.IH" [of out vp v pos']) simp_all
          then show ?thesis by auto
        qed
      qed
    qed
  qed
qed

lemma unpack_loop_trace:
  "unpack_loop cd nproc root recv_buffer offsets in_values n src p tr = (e, p', tr') \<Longrightarrow>
   \<exists>rest. tr' = tr @ rest"
proof (induction "nproc - src" arbitrary: src p tr)
  case 0
  then show ?case by (simp add: unpack_loop_done)
next
  case (Suc d)
  then have lt: "src < nproc" and d: "d = nproc - Suc src" by auto
  have ih: "\<And>p1 tr1. unpack_loop cd nproc root recv_buffer offsets in_values n (Suc src) p1 tr1 =
      (e, p', tr') \<Longrightarrow> \<exists>rest. tr' = tr1 @ rest"
    using Suc.hyps(1) [OF d] by simp
  show ?case
  proof (cases "src = root")
    case True
    from Suc.prems show ?thesis
      unfolding unpack_loop_root [OF lt True]
      by (auto split: if_splits sum.splits dest!: ih)
  next
    case False
    note run = Suc.prems [unfolded unpack_loop_other [OF lt False]]
    show ?thesis
    proof (cases "length offsets \<le> src")
      case True
      with run show ?thesis by simp
    next
      case bound: False
      obtain e1 p1 tr1 where l:
        "load_values cd recv_buffer (size_t_of_int (offsets ! src)) src 0 n p tr = (e1, p1, tr1)"
        by (metis prod_cases3)
      from load_values_trace [OF l] obtain r1 where r1: "tr1 = tr @ r1" by blast
      show ?thesis
      proof (cases e1)
        case None
        with run bound l
        have "unpack_loop cd nproc root recv_buffer offsets in_values n (Suc src) p1 tr1 = (e, p', tr')"
          by simp
        from ih [OF this] r1 show ?thesis by auto
      next
        case (Some err)
        with run bound l have "tr' = tr1" by simp
        with r1 show ?thesis by simp
      qed
    qed
  qed
qed

lemma size_exchange_prefix:
  assumes "\<not> length in_values < n"
  shows "\<exists>e0 asizes tr0 e p' tr rest.
     gather_scalar_vec nd mpl_true 0 (size_exchange env) comm
       (int_of_size_t (length (encoded_payload cd in_values n))) [] root = (e0, asizes, tr0) \<and>
     gather_impl_false nd cd env comm in_values n p root = (e, p', tr) \<and> tr = tr0 @ rest \<and>
     (e0 \<noteq> None \<longrightarrow> e = e0 \<and> p' = p \<and> rest = [])"
proof -
  let ?L = "int_of_size_t (length (encoded_payload cd in_values n))"
  obtain e0 asizes tr0 where g:
    "gather_scalar_vec nd mpl_true 0 (size_exchange env) comm ?L [] root = (e0, asizes, tr0)"
    by (metis prod_cases3)
  obtain e p' tr where r: "gather_impl_false nd cd env comm in_values n p root = (e, p', tr)"
    by (metis prod_cases3)
  have "(\<exists>rest. tr = tr0 @ rest) \<and> (e0 \<noteq> None \<longrightarrow> e = e0 \<and> p' = p \<and> tr = tr0)"
    using r assms g
    unfolding gather_impl_false_def Let_def save_values_payload
    by (auto split: if_splits sum.splits prod.splits option.splits dest!: unpack_loop_trace)
  with g r show ?thesis by auto
qed


lemma size_vector_root:
  assumes rk: "comm_rank comm = root"
    and run: "gather_scalar_vec nd mpl_true 0 env comm x [] root = (None, asizes, tr0)"
  shows "length asizes = comm_size comm \<and>
    (\<forall>k. k < comm_size comm \<longrightarrow>
       (if k = root then asizes ! k = x
        else gather_peers env k = Some ([asizes ! k], Suc 0, root)))"
proof -
  let ?f = "\<lambda>k. if k = root then Some [x] else gather_block env (Suc 0) root k"
  have st: "gather_status env = MPI_SUCCESS" and N0: "0 < comm_size comm"
    using size_exchange_root_trace [OF rk run] by simp_all
  from run size_exchange_root [OF rk st N0, of nd x]
  obtain blocks where th: "those (map ?f [0..<comm_size comm]) = Some blocks"
    and as: "asizes = concat blocks"
    by (auto split: option.splits)
  from th have bl: "length blocks = comm_size comm"
    and each: "\<forall>j<comm_size comm. ?f j = Some (blocks ! j)"
    unfolding those_upt_Some by blast+
  have one: "\<And>j. j < comm_size comm \<Longrightarrow> length (blocks ! j) = Suc 0"
  proof -
    fix j assume "j < comm_size comm"
    then have "?f j = Some (blocks ! j)" using each by simp
    then have "blocks ! j = [x] \<or> gather_block env (Suc 0) root j = Some (blocks ! j)"
      by (auto split: if_splits)
    then show "length (blocks ! j) = Suc 0"
      by (auto simp: gather_block_def split: if_splits option.splits)
  qed
  have single: "\<forall>j<length blocks. blocks ! j = [hd (blocks ! j)]"
  proof (intro allI impI)
    fix j assume "j < length blocks"
    then have "length (blocks ! j) = Suc 0" using one bl by simp
    then show "blocks ! j = [hd (blocks ! j)]" by (cases "blocks ! j") auto
  qed
  have asz: "asizes = map (\<lambda>j. hd (blocks ! j)) [0..<comm_size comm]"
    using concat_singletons_nth [OF single] as bl by simp
  have "\<forall>k. k < comm_size comm \<longrightarrow>
       (if k = root then asizes ! k = x
        else gather_peers env k = Some ([asizes ! k], Suc 0, root))"
  proof (intro allI impI)
    fix k assume k: "k < comm_size comm"
    have a: "asizes ! k = hd (blocks ! k)" using asz k by simp
    have b: "blocks ! k = [hd (blocks ! k)]" using single k bl by simp
    show "if k = root then asizes ! k = x
        else gather_peers env k = Some ([asizes ! k], Suc 0, root)"
    proof (cases "k = root")
      case True
      then have "Some [x] = Some (blocks ! k)" using each k by auto
      then show ?thesis using True a by (metis list.sel(1) option.inject)
    next
      case False
      then have "gather_block env (Suc 0) root k = Some (blocks ! k)" using each k by auto
      then have "gather_peers env k = Some (blocks ! k, Suc 0, root)"
        by (auto simp: gather_block_def split: option.splits if_splits)
      then show ?thesis using False a b by simp
    qed
  qed
  then show ?thesis using asz by simp
qed

subsection \<open>The serialized path with \<open>n = 0\<close>\<close>

lemma those_map_all_Some: "those (map (\<lambda>k. Some (f k)) ks) = Some (map f ks)"
  by (induction ks) auto

lemma those_replicate_Some: "those (replicate N (Some x)) = Some (replicate N x)"
  by (induction N) auto

lemma concat_replicate_single: "concat (replicate N [x]) = replicate N x"
  by (induction N) auto

lemma accumulate_zeros: "accumulate (replicate N 0) 0 = Inr 0"
  by (induction N) (auto simp: in_int_range_def INT_MIN_def INT_MAX_def)

lemma sizes2offset_zeros:
  assumes "0 < N" "N \<le> 2 ^ 31"
  shows "sizes2offset nd (replicate N 0) (replicate N 0) = Inr (replicate N 0)"
proof -
  let ?z = "replicate N (0::int)"
  have "\<exists>offs. sizes2offset_loop 0 ?z (?z[0 := 0]) = Inr offs \<and> length offs = length ?z \<and>
     (\<forall>k \<le> 0. offs ! k = (?z[0 := 0]) ! k) \<and>
     (\<forall>k. 0 \<le> k \<and> k < length ?z \<longrightarrow> offs ! k = sum_list (take k ?z))"
  proof (rule sizes2offset_loop_prefix)
    show "length (?z[0 := 0]) = length ?z" by simp
    show "0 < length ?z" using assms by simp
    show "length ?z \<le> 2 ^ 31" using assms by simp
    show "\<forall>k. 0 < k \<and> k < length ?z \<longrightarrow> in_int_range (sum_list (take k ?z))"
      by (simp add: in_int_range_def INT_MIN_def INT_MAX_def take_replicate sum_list_replicate)
    show "?z[0 := 0] ! 0 = sum_list (take 0 ?z)" using assms by simp
  qed
  then obtain offs where o: "sizes2offset_loop 0 ?z (?z[0 := 0]) = Inr offs" "length offs = N"
    and z: "\<forall>k. k < N \<longrightarrow> offs ! k = sum_list (take k ?z)"
    by auto
  have "offs = ?z"
  proof (rule nth_equalityI)
    show "length offs = length ?z" using o(2) by simp
  next
    fix i assume "i < length offs"
    then show "offs ! i = ?z ! i"
      using z o(2) by (simp add: take_replicate sum_list_replicate)
  qed
  then show ?thesis using o(1) assms by (simp add: sizes2offset_def)
qed

lemma gatherv_place_empty:
  "\<forall>k\<in>set ks. block k = Some [] \<and> k < length counts \<and> k < length displs \<and>
      counts ! k = 0 \<and> displs ! k = 0 \<Longrightarrow>
   gatherv_place block counts displs ks buf = Inr buf"
  by (induction ks arbitrary: buf) auto

lemma unpack_loop_zero:
  "nproc \<le> length offsets \<Longrightarrow>
   unpack_loop cd nproc root recv_buffer offsets in_values 0 src p tr = (None, p, tr)"
proof (induction "nproc - src" arbitrary: src)
  case 0
  then show ?case by (simp add: unpack_loop_done)
next
  case (Suc d)
  then have lt: "src < nproc" and d: "d = nproc - (src + 1)" by auto
  have ih: "unpack_loop cd nproc root recv_buffer offsets in_values 0 (src + 1) p tr = (None, p, tr)"
    using Suc.hyps(1) [OF d Suc.prems] .
  have l: "load_values cd recv_buffer (size_t_of_int (offsets ! src)) src 0 0 p tr = (None, p, tr)"
    by (subst load_values.simps) simp
  show ?case
  proof (cases "src = root")
    case True
    show ?thesis
      unfolding unpack_loop_root [OF lt True]
      using ih by (simp add: store_def in_int_range_def INT_MIN_def INT_MAX_def)
  next
    case False
    show ?thesis
      unfolding unpack_loop_other [OF lt False]
      using ih lt Suc.prems l by simp
  qed
qed

lemma gather_impl_false_zero_root:
  assumes mem: "root < N" and N: "int N \<le> INT_MAX"
  shows "gather_impl_false nd cd
     (group_ser_env (peer_events (mpl_false nd cd) (sender_ser_env MPI_SUCCESS MPI_SUCCESS)
        N root 0 vals))
     \<lparr>comm_rank = root, comm_size = N\<rparr> xs 0 p root =
   (None, p, [Gather_call [0] (Suc 0) root, Gatherv_call [] 0 root])"
proof -
  let ?env = "group_ser_env (peer_events (mpl_false nd cd)
      (sender_ser_env MPI_SUCCESS MPI_SUCCESS) N root 0 vals)"
  let ?c = "\<lparr>comm_rank = root, comm_size = N\<rparr>"
  have rk: "comm_rank ?c = root" by simp
  have c0: "0 < comm_size ?c" using mem by simp
  have pay: "\<And>ys. encoded_payload cd ys 0 = []" by (simp add: encoded_payload_def)
  have l0: "int_of_size_t 0 = 0" by (simp add: int_of_size_t_def)
  have N31: "N \<le> 2 ^ 31"
  proof -
    have "int N \<le> 2 ^ 31" using N by (simp add: INT_MAX_def)
    then show ?thesis by (metis of_nat_le_iff of_nat_numeral of_nat_power)
  qed
  let ?f = "\<lambda>k. if k = root then Some [0::int] else gather_block (size_exchange ?env) (Suc 0) root k"
  have f: "map ?f [0..<N] = map (\<lambda>k. Some [0]) [0..<N]"
    by (rule map_cong) (auto simp: group_size_block pay l0)
  have se: "gather_scalar_vec nd mpl_true 0 (size_exchange ?env) ?c 0 [] root =
      (None, replicate N 0, [Gather_call [0] (Suc 0) root])"
    unfolding size_exchange_root [OF rk group_status(2) c0]
    by (simp add: f those_map_all_Some map_replicate_const those_replicate_Some concat_replicate_single)
  let ?blk = "\<lambda>k. if k = root then Some (take (nat 0) []) else gatherv_block (payload_exchange ?env) root k"
  have blk: "\<forall>k\<in>set [0..<N]. ?blk k = Some [] \<and> k < length (replicate N (0::int)) \<and>
      k < length (replicate N (0::int)) \<and> replicate N (0::int) ! k = 0 \<and> replicate N (0::int) ! k = 0"
    by (auto simp: group_payload_block pay INT_MAX_def)
  have gv: "MPI_Gatherv (payload_exchange ?env) ?c [] 0 [] (replicate N 0) (replicate N 0) root =
      Inr (MPI_SUCCESS, [])"
    using gatherv_place_empty [OF blk, of "[]"]
    by (simp add: MPI_Gatherv_def group_status)
  have N0: "0 < N" using mem by simp
  have so: "sizes2offset nd (replicate N 0) (replicate N 0) = Inr (replicate N 0)"
    by (rule sizes2offset_zeros [OF N0 N31])
  have up: "\<And>tr. unpack_loop cd N root [] (replicate N 0) xs 0 0 p tr = (None, p, tr)"
    by (rule unpack_loop_zero) simp
  show ?thesis
    by (simp add: gather_impl_false_def save_values_payload pay l0 se so
        accumulate_zeros gv BOOST_MPI_CHECK_RESULT_def up)
qed

subsection \<open>The public overloads\<close>



text \<open>
  Claim C8. The overloads without a receive buffer assert that the caller is not the root:
  called at the root they end in the failed assertion before anything is sent; with the
  assertions compiled out there is no check at all, and at any other rank they are the
  non-root \<^verbatim>\<open>gather_impl\<close>.
\<close>

theorem gather_nonroot_assert:
  "(comm_rank comm = root \<longrightarrow>
      gather_scalar_nonroot False tag env comm x root = (Some AssertionFailed, []) \<and>
      gather_array_nonroot False tag env comm xs n root = (Some AssertionFailed, []) \<and>
      gather_scalar_nonroot True tag env comm x root = impl_nonroot tag env comm [x] 1 root \<and>
      gather_array_nonroot True tag env comm xs n root = impl_nonroot tag env comm xs n root) \<and>
   (comm_rank comm \<noteq> root \<longrightarrow>
      gather_scalar_nonroot ndebug tag env comm x root = impl_nonroot tag env comm [x] 1 root \<and>
      gather_array_nonroot ndebug tag env comm xs n root = impl_nonroot tag env comm xs n root)"
  by (simp add: gather_scalar_nonroot_def gather_array_nonroot_def)

theorem gather_nonroot_assert_witness:
  "gather_scalar_nonroot False mpl_true (sender_gather_env MPI_SUCCESS)
     \<lparr>comm_rank = 1, comm_size = 3\<rparr> (5::int) 1 = (Some AssertionFailed, []) \<and>
   gather_array_nonroot False mpl_true (sender_gather_env MPI_SUCCESS)
     \<lparr>comm_rank = 1, comm_size = 3\<rparr> [5, 6 :: int] 2 1 = (Some AssertionFailed, []) \<and>
   gather_array_nonroot False mpl_true (sender_gather_env MPI_SUCCESS)
     \<lparr>comm_rank = 2, comm_size = 3\<rparr> [5, 6 :: int] 2 1 = (None, [Gather_call [5, 6] 2 1])"
  using gather_nonroot_assert [where comm = "\<lparr>comm_rank = 1, comm_size = 3\<rparr>" and root = 1
      and tag = mpl_true and env = "sender_gather_env MPI_SUCCESS" and x = "5::int"
      and xs = "[5, 6]" and n = 2]
    gather_nonroot_assert [where comm = "\<lparr>comm_rank = 2, comm_size = 3\<rparr>" and root = 1
      and tag = mpl_true and env = "sender_gather_env MPI_SUCCESS" and x = "5::int"
      and xs = "[5, 6]" and n = 2 and ndebug = False]
  by (simp add: mpl_true_def gather_impl_true_nonroot_def MPI_Gather_def sender_gather_env_def
      BOOST_MPI_CHECK_RESULT_def)

subsection \<open>The serialized path at the root\<close>



text \<open>
  Claim C3. When the serialized \<^verbatim>\<open>gather_impl\<close> completes at the root, whatever the codec
  is, the root's slice holds the root's own \<open>n\<close> values; the slice of every other rank
  \<open>k\<close> holds the \<open>n\<close> values decoded in sequence from position \<open>offsets[k]\<close> of the
  receive buffer that \<^verbatim>\<open>MPI_Gatherv\<close> filled; and the decoder was called at exactly the
  positions of those decodings, rank after rank in increasing order, with no call for the
  root.
\<close>

theorem serialized_root_decode:
  assumes run: "gather_impl_false nd cd env comm in_values n p root = (None, p', tr')"
    and rk: "comm_rank comm = root" and mem: "root < comm_size comm"
  shows "rank_slice p' n root = take n in_values \<and>
    (\<exists>asizes offsets total_size recv_buffer tr0.
       sizes2offset nd asizes (replicate (comm_size comm) 0) = Inr offsets \<and>
       MPI_Gatherv (payload_exchange env) comm (encoded_payload cd in_values n)
         (int_of_size_t (length (encoded_payload cd in_values n)))
         (replicate (nat total_size) 0) asizes offsets root = Inr (MPI_SUCCESS, recv_buffer) \<and>
       (\<forall>k. k < comm_size comm \<and> k \<noteq> root \<longrightarrow>
          (\<exists>vs ps. decode_seq cd recv_buffer (size_t_of_int (offsets ! k)) n = Some (vs, ps) \<and>
             rank_slice p' n k = vs)) \<and>
       tr' = tr0 @ [Gatherv_call (encoded_payload cd in_values n)
                      (int_of_size_t (length (encoded_payload cd in_values n))) root] @
             map Load_call
               (concat (map (sender_loads cd root recv_buffer offsets n) [0..<comm_size comm])))"
proof -
  let ?oa = "encoded_payload cd in_values n"
  let ?L = "int_of_size_t (length ?oa)"
  from gather_impl_false_phases [OF run rk]
  obtain asizes tr0 offsets total_size recv where
    so: "sizes2offset nd asizes (replicate (comm_size comm) 0) = Inr offsets"
    and gv: "MPI_Gatherv (payload_exchange env) comm ?oa ?L
       (replicate (nat total_size) 0) asizes offsets root = Inr (MPI_SUCCESS, recv)"
    and un: "unpack_loop cd (comm_size comm) root recv offsets in_values n 0 p
       (tr0 @ [Gatherv_call ?oa ?L root]) = (None, p', tr')"
    by auto
  from unpack_loop_ok [OF un]
  have sv: "\<And>k. k < comm_size comm \<Longrightarrow>
      sender_values cd root recv offsets in_values n k = Some (rank_slice p' n k)"
    and tr: "tr' = (tr0 @ [Gatherv_call ?oa ?L root]) @
      map Load_call (concat (map (sender_loads cd root recv offsets n) [0..<comm_size comm]))"
    by simp_all
  have own: "rank_slice p' n root = take n in_values"
    using sv [OF mem] by (simp add: sender_values_def)
  have others: "\<forall>k. k < comm_size comm \<and> k \<noteq> root \<longrightarrow>
          (\<exists>vs ps. decode_seq cd recv (size_t_of_int (offsets ! k)) n = Some (vs, ps) \<and>
             rank_slice p' n k = vs)"
  proof (intro allI impI)
    fix k assume k: "k < comm_size comm \<and> k \<noteq> root"
    then have "map_option fst (decode_seq cd recv (size_t_of_int (offsets ! k)) n) =
        Some (rank_slice p' n k)"
      using sv [of k] by (simp add: sender_values_def)
    then show "\<exists>vs ps. decode_seq cd recv (size_t_of_int (offsets ! k)) n = Some (vs, ps) \<and>
             rank_slice p' n k = vs"
      by auto
  qed
  have tr2: "tr' = tr0 @ [Gatherv_call ?oa ?L root] @
      map Load_call (concat (map (sender_loads cd root recv offsets n) [0..<comm_size comm]))"
    using tr by simp
  from so gv others tr2 have "\<exists>asizes offsets total_size recv_buffer tr0.
       sizes2offset nd asizes (replicate (comm_size comm) 0) = Inr offsets \<and>
       MPI_Gatherv (payload_exchange env) comm ?oa ?L
         (replicate (nat total_size) 0) asizes offsets root = Inr (MPI_SUCCESS, recv_buffer) \<and>
       (\<forall>k. k < comm_size comm \<and> k \<noteq> root \<longrightarrow>
          (\<exists>vs ps. decode_seq cd recv_buffer (size_t_of_int (offsets ! k)) n = Some (vs, ps) \<and>
             rank_slice p' n k = vs)) \<and>
       tr' = tr0 @ [Gatherv_call ?oa ?L root] @
             map Load_call
               (concat (map (sender_loads cd root recv_buffer offsets n) [0..<comm_size comm]))"
    by blast
  with own show ?thesis by simp
qed

theorem serialized_root_decode_witness:
  "gather_impl_false False unary_codec
     (group_ser_env (peer_events (mpl_false False unary_codec)
        (sender_ser_env MPI_SUCCESS MPI_SUCCESS) 3 0 1 (\<lambda>k. [k + 1])))
     \<lparr>comm_rank = 0, comm_size = 3\<rparr> [1] 1 (Some [0, 0, 0]) 0 =
   (None, Some [1, 2, 3],
    [Gather_call [2] (Suc 0) 0, Gatherv_call [1, 0] 2 0, Load_call 2, Load_call 5]) \<and>
   rank_slice (Some [1, 2, 3 :: nat]) 1 0 = take 1 [1]"
proof -
  have "rank_slice (Some [1, 2, 3 :: nat]) 1 0 = take 1 [1]"
    by (rule serialized_root_decode [OF sample_run_impl, THEN conjunct1]) simp_all
  then show ?thesis using sample_run_impl by simp
qed

text \<open>
  Claim C9. A sender's segment that fails to decode ends the decode phase in an error.
  When the serialized \<^verbatim>\<open>gather_impl\<close> ends at the root in the decoder's exception, the
  public \<^verbatim>\<open>gather\<close> ends in that same exception with the same buffer; some rank \<open>j\<close>
  other than the root failed to decode; the slices of all ranks below \<open>j\<close> hold what
  they are to hold; and the slices of all ranks above \<open>j\<close> are as they were before the
  call.
\<close>

theorem serialized_decode_failure:
  "(k < nproc \<and> k \<noteq> root \<and>
    decode_seq cd recv_buffer (size_t_of_int (offsets ! k)) n = None \<longrightarrow>
      fst (unpack_loop cd nproc root recv_buffer offsets in_values n 0 p tr) \<noteq> None) \<and>
   (comm_rank comm = root \<and>
    gather_impl_false nd cd env comm in_values n p root = (Some ArchiveException, p', tr') \<longrightarrow>
      gather_array_ptr (mpl_false nd cd) env comm in_values n p root =
        (Some ArchiveException, p', tr') \<and>
      map_option length p' = map_option length p \<and>
      (\<exists>asizes offsets total_size recv_buffer j.
         sizes2offset nd asizes (replicate (comm_size comm) 0) = Inr offsets \<and>
         MPI_Gatherv (payload_exchange env) comm (encoded_payload cd in_values n)
           (int_of_size_t (length (encoded_payload cd in_values n)))
           (replicate (nat total_size) 0) asizes offsets root = Inr (MPI_SUCCESS, recv_buffer) \<and>
         j < comm_size comm \<and> j \<noteq> root \<and>
         decode_seq cd recv_buffer (size_t_of_int (offsets ! j)) n = None \<and>
         (\<forall>i. i < j \<longrightarrow>
            sender_values cd root recv_buffer offsets in_values n i = Some (rank_slice p' n i)) \<and>
         (\<forall>i. j < i \<longrightarrow> rank_slice p' n i = rank_slice p n i)))"
proof (intro conjI impI)
  assume a: "k < nproc \<and> k \<noteq> root \<and>
    decode_seq cd recv_buffer (size_t_of_int (offsets ! k)) n = None"
  show "fst (unpack_loop cd nproc root recv_buffer offsets in_values n 0 p tr) \<noteq> None"
  proof
    assume "fst (unpack_loop cd nproc root recv_buffer offsets in_values n 0 p tr) = None"
    then obtain p1 tr1 where
      "unpack_loop cd nproc root recv_buffer offsets in_values n 0 p tr = (None, p1, tr1)"
      by (metis prod.collapse)
    from unpack_loop_ok [OF this] a
    have "sender_values cd root recv_buffer offsets in_values n k = Some (rank_slice p1 n k)"
      by simp
    with a show False by (simp add: sender_values_def)
  qed
next
  assume a: "comm_rank comm = root \<and>
    gather_impl_false nd cd env comm in_values n p root = (Some ArchiveException, p', tr')"
  then have rk: "comm_rank comm = root"
    and run: "gather_impl_false nd cd env comm in_values n p root = (Some ArchiveException, p', tr')"
    by simp_all
  show "gather_array_ptr (mpl_false nd cd) env comm in_values n p root =
        (Some ArchiveException, p', tr')"
    using rk run by (simp add: gather_array_ptr_def impl_select)
  show "map_option length p' = map_option length p"
    using run by (rule gather_impl_false_shape)
  let ?oa = "encoded_payload cd in_values n"
  let ?L = "int_of_size_t (length ?oa)"
  from gather_impl_false_phases [OF run rk]
  obtain asizes tr0 offsets total_size recv where
    so: "sizes2offset nd asizes (replicate (comm_size comm) 0) = Inr offsets"
    and gv: "MPI_Gatherv (payload_exchange env) comm ?oa ?L
       (replicate (nat total_size) 0) asizes offsets root = Inr (MPI_SUCCESS, recv)"
    and un: "unpack_loop cd (comm_size comm) root recv offsets in_values n 0 p
       (tr0 @ [Gatherv_call ?oa ?L root]) = (Some ArchiveException, p', tr')"
    by auto
  from unpack_loop_fail [OF un]
  obtain j where j: "j < comm_size comm" "j \<noteq> root"
    "decode_seq cd recv (size_t_of_int (offsets ! j)) n = None"
    and low: "\<forall>i. i < j \<longrightarrow>
       sender_values cd root recv offsets in_values n i = Some (rank_slice p' n i)"
    and high: "\<forall>i. j < i \<longrightarrow> rank_slice p' n i = rank_slice p n i"
    by auto
  from so gv j low high
  show "\<exists>asizes offsets total_size recv_buffer j.
         sizes2offset nd asizes (replicate (comm_size comm) 0) = Inr offsets \<and>
         MPI_Gatherv (payload_exchange env) comm (encoded_payload cd in_values n)
           (int_of_size_t (length (encoded_payload cd in_values n)))
           (replicate (nat total_size) 0) asizes offsets root = Inr (MPI_SUCCESS, recv_buffer) \<and>
         j < comm_size comm \<and> j \<noteq> root \<and>
         decode_seq cd recv_buffer (size_t_of_int (offsets ! j)) n = None \<and>
         (\<forall>i. i < j \<longrightarrow>
            sender_values cd root recv_buffer offsets in_values n i = Some (rank_slice p' n i)) \<and>
         (\<forall>i. j < i \<longrightarrow> rank_slice p' n i = rank_slice p n i)"
    by blast
qed

theorem serialized_decode_failure_witness:
  "fst (unpack_loop unary_codec 3 0 [1, 0, 1, 1, 1] [0, 2, 4] [1] 1 0 (Some [9, 9, 9])
          ([] :: int event list)) \<noteq> None \<and>
   gather_impl_false False unary_codec cut_short_env \<lparr>comm_rank = 0, comm_size = 3\<rparr> [1] 1
     (Some [9, 9, 9]) 0 =
     (Some ArchiveException, Some [1, 9, 9],
      [Gather_call [2] (Suc 0) 0, Gatherv_call [1, 0] 2 0, Load_call 2]) \<and>
   gather_array_ptr (mpl_false False unary_codec) cut_short_env \<lparr>comm_rank = 0, comm_size = 3\<rparr>
     [1] 1 (Some [9, 9, 9]) 0 =
     (Some ArchiveException, Some [1, 9, 9],
      [Gather_call [2] (Suc 0) 0, Gatherv_call [1, 0] 2 0, Load_call 2])"
proof -
  have d: "(1::nat) < 3 \<and> (1::nat) \<noteq> 0 \<and>
      decode_seq unary_codec [1, 0, 1, 1, 1] (size_t_of_int ([0, 2, 4] ! 1)) 1 = None"
    by (simp add: unary_codec_def size_t_of_int_def)
  have "fst (unpack_loop unary_codec 3 0 [1, 0, 1, 1, 1] [0, 2, 4] [1] 1 0 (Some [9, 9, 9])
          ([] :: int event list)) \<noteq> None"
    by (rule serialized_decode_failure [THEN conjunct1, rule_format, OF d])
  moreover have "gather_array_ptr (mpl_false False unary_codec) cut_short_env
     \<lparr>comm_rank = 0, comm_size = 3\<rparr> [1] 1 (Some [9, 9, 9]) 0 =
     (Some ArchiveException, Some [1, 9, 9],
      [Gather_call [2] (Suc 0) 0, Gatherv_call [1, 0] 2 0, Load_call 2])"
    by (rule serialized_decode_failure [THEN conjunct2, rule_format,
          OF conjI [OF _ cut_short_run], THEN conjunct1]) simp
  ultimately show ?thesis using cut_short_run by simp
qed

subsection \<open>The phases of the serialized path\<close>

text \<open>
  Claim C4. With \<open>n = 0\<close>, the root's call of
  \<^verbatim>\<open>gather(comm, in_values, n, std::vector<T>& out_values, root)\<close> resizes the vector to
  no elements and then evaluates \<^verbatim>\<open>&out_values[0]\<close>: it ends there, in an access outside
  the vector, before anything is sent, on the direct and on the serialized path alike.
  The rest of the serialized path does handle \<open>n = 0\<close>. In a group of \<open>N\<close> processes
  (\<open>N\<close> a value of \<^verbatim>\<open>int\<close>, \<open>root < N\<close>) over a transport that reports success, for any
  codec: the archive of every process is empty; every process other than the root
  completes the same overload, its vector unchanged, having sent the size \<open>0\<close> and the
  empty payload; the size vector gathered at the root is \<open>N\<close> zeros; \<^verbatim>\<open>sizes2offset\<close> on
  it returns \<open>N\<close> zero offsets; and the overload that takes a pointer completes at the
  root, the memory behind the pointer unchanged and the decoder never called.
\<close>

theorem gather_zero_count:
  assumes mem: "root < N" and N: "int N \<le> INT_MAX"
  shows "gather_array_vec nd tag dflt env \<lparr>comm_rank = root, comm_size = N\<rparr> ys 0 v root =
      (Some OutOfBounds, [], []) \<and>
    encoded_payload cd xs 0 = [] \<and>
    (\<forall>k. k < N \<and> k \<noteq> root \<longrightarrow>
       gather_array_vec nd (mpl_false nd cd) dflt' (sender_ser_env MPI_SUCCESS MPI_SUCCESS)
         \<lparr>comm_rank = k, comm_size = N\<rparr> (vals k) 0 w root =
       (None, w, [Gather_call [0] 1 root, Gatherv_call [] 0 root])) \<and>
    gather_scalar_vec nd mpl_true 0
      (size_exchange (group_ser_env (peer_events (mpl_false nd cd)
         (sender_ser_env MPI_SUCCESS MPI_SUCCESS) N root 0 vals)))
      \<lparr>comm_rank = root, comm_size = N\<rparr> 0 [] root =
      (None, replicate N 0, [Gather_call [0] 1 root]) \<and>
    sizes2offset nd (replicate N 0) (replicate N 0) = Inr (replicate N 0) \<and>
    gather_array_ptr (mpl_false nd cd)
      (group_ser_env (peer_events (mpl_false nd cd) (sender_ser_env MPI_SUCCESS MPI_SUCCESS)
         N root 0 vals))
      \<lparr>comm_rank = root, comm_size = N\<rparr> (vals root) 0 p root =
    (None, p, [Gather_call [0] 1 root, Gatherv_call [] 0 root])"
proof (intro conjI allI impI)
  have pay: "\<And>ys. encoded_payload cd ys 0 = []" by (simp add: encoded_payload_def)
  have l0: "int_of_size_t 0 = 0" by (simp add: int_of_size_t_def)
  have N31: "N \<le> 2 ^ 31"
  proof -
    have "int N \<le> 2 ^ 31" using N by (simp add: INT_MAX_def)
    then show ?thesis by (metis of_nat_le_iff of_nat_numeral of_nat_power)
  qed
  show "gather_array_vec nd tag dflt env \<lparr>comm_rank = root, comm_size = N\<rparr> ys 0 v root =
      (Some OutOfBounds, [], [])"
    by (simp add: gather_array_vec_def front_address_resize resize_Nil
        in_int_range_def INT_MIN_def INT_MAX_def)
  show "encoded_payload cd xs 0 = []" by (rule pay)
  show "sizes2offset nd (replicate N 0) (replicate N 0) = Inr (replicate N 0)"
  proof (rule sizes2offset_zeros [OF _ N31])
    show "0 < N" using mem by simp
  qed
  show "gather_array_ptr (mpl_false nd cd)
      (group_ser_env (peer_events (mpl_false nd cd) (sender_ser_env MPI_SUCCESS MPI_SUCCESS)
         N root 0 vals))
      \<lparr>comm_rank = root, comm_size = N\<rparr> (vals root) 0 p root =
    (None, p, [Gather_call [0] 1 root, Gatherv_call [] 0 root])"
    by (simp add: gather_array_ptr_def impl_select gather_impl_false_zero_root [OF mem N])
  show "gather_scalar_vec nd mpl_true 0
      (size_exchange (group_ser_env (peer_events (mpl_false nd cd)
         (sender_ser_env MPI_SUCCESS MPI_SUCCESS) N root 0 vals)))
      \<lparr>comm_rank = root, comm_size = N\<rparr> 0 [] root =
      (None, replicate N 0, [Gather_call [0] 1 root])"
  proof -
    let ?env = "group_ser_env (peer_events (mpl_false nd cd)
      (sender_ser_env MPI_SUCCESS MPI_SUCCESS) N root 0 vals)"
    let ?c = "\<lparr>comm_rank = root, comm_size = N\<rparr>"
    have rk: "comm_rank ?c = root" by simp
    have c0: "0 < comm_size ?c" using mem by simp
    let ?f = "\<lambda>k. if k = root then Some [0::int]
        else gather_block (size_exchange ?env) (Suc 0) root k"
    have f: "map ?f [0..<N] = map (\<lambda>k. Some [0]) [0..<N]"
      by (rule map_cong) (auto simp: group_size_block pay l0)
    show ?thesis
      unfolding size_exchange_root [OF rk group_status(2) c0]
      by (simp add: f those_map_all_Some map_replicate_const those_replicate_Some concat_replicate_single)
  qed
next
  fix k assume k: "k < N \<and> k \<noteq> root"
  have pay: "encoded_payload cd (vals k) 0 = []" by (simp add: encoded_payload_def)
  have l0: "int_of_size_t 0 = 0" by (simp add: int_of_size_t_def)
  let ?c = "\<lparr>comm_rank = k, comm_size = N\<rparr>"
  have "gather_impl_false nd cd (sender_ser_env MPI_SUCCESS MPI_SUCCESS) ?c (vals k) 0 None root =
      (None, None, [Gather_call [0] (Suc 0) root, Gatherv_call [] 0 root])"
    using k
    by (subst gather_impl_false_nonroot_run)
       (simp_all add: sender_ser_env_def sender_gather_env_def pay l0)
  then show "gather_array_vec nd (mpl_false nd cd) dflt' (sender_ser_env MPI_SUCCESS MPI_SUCCESS)
         ?c (vals k) 0 w root =
       (None, w, [Gather_call [0] 1 root, Gatherv_call [] 0 root])"
    using k
    by (simp add: gather_array_vec_def gather_array_nonroot_def impl_select
        gather_impl_false_nonroot_def)
qed

theorem gather_zero_count_witness:
  "gather_array_vec False (mpl_false False unary_codec) 0
      (group_ser_env (peer_events (mpl_false False unary_codec)
         (sender_ser_env MPI_SUCCESS MPI_SUCCESS) 3 0 0 (\<lambda>k. [k + 1])))
      \<lparr>comm_rank = 0, comm_size = 3\<rparr> [1] 0 [7] 0 =
     (Some OutOfBounds, [], []) \<and>
   gather_array_vec False mpl_true (0::int) (sender_gather_env MPI_SUCCESS)
      \<lparr>comm_rank = 0, comm_size = 3\<rparr> [1] 0 [7] 0 =
     (Some OutOfBounds, [], []) \<and>
   encoded_payload unary_codec [5] 0 = [] \<and>
   gather_array_vec False (mpl_false False unary_codec) 0 (sender_ser_env MPI_SUCCESS MPI_SUCCESS)
      \<lparr>comm_rank = 1, comm_size = 3\<rparr> [2] 0 [7] 0 =
     (None, [7], [Gather_call [0] 1 0, Gatherv_call [] 0 0]) \<and>
   sizes2offset False (replicate 3 0) (replicate 3 0) = Inr (replicate 3 0) \<and>
   gather_array_ptr (mpl_false False unary_codec)
      (group_ser_env (peer_events (mpl_false False unary_codec)
         (sender_ser_env MPI_SUCCESS MPI_SUCCESS) 3 0 0 (\<lambda>k. [k + 1])))
      \<lparr>comm_rank = 0, comm_size = 3\<rparr> [1] 0 (Some [7]) 0 =
     (None, Some [7], [Gather_call [0] 1 0, Gatherv_call [] 0 0])"
proof -
  have h1: "(0::nat) < 3" by simp
  have h2: "int 3 \<le> INT_MAX" by (simp add: INT_MAX_def)
  have k: "(1::nat) < 3 \<and> (1::nat) \<noteq> 0" by simp
  note z = gather_zero_count [OF h1 h2, where nd = False and cd = unary_codec and dflt' = 0
      and vals = "\<lambda>k. [k + 1]" and w = "[7]" and xs = "[5]" and p = "Some [7]"
      and ys = "[1]" and v = "[7]" and dflt = 0]
  note z0 = z [THEN conjunct1]
  note z1 = z [THEN conjunct2, THEN conjunct1]
  note z2 = z [THEN conjunct2, THEN conjunct2, THEN conjunct1, rule_format, OF k]
  note z4 = z [THEN conjunct2, THEN conjunct2, THEN conjunct2, THEN conjunct2, THEN conjunct1]
  note z5 = z [THEN conjunct2, THEN conjunct2, THEN conjunct2, THEN conjunct2, THEN conjunct2]
  have z0a: "gather_array_vec False (mpl_false False unary_codec) 0
      (group_ser_env (peer_events (mpl_false False unary_codec)
         (sender_ser_env MPI_SUCCESS MPI_SUCCESS) 3 0 0 (\<lambda>k. [k + 1])))
      \<lparr>comm_rank = 0, comm_size = 3\<rparr> [1] 0 [7] 0 =
     (Some OutOfBounds, [], [])"
    by (rule z0)
  have z0b: "gather_array_vec False mpl_true (0::int) (sender_gather_env MPI_SUCCESS)
      \<lparr>comm_rank = 0, comm_size = 3\<rparr> [1] 0 [7] 0 =
     (Some OutOfBounds, [], [])"
    by (rule z0)
  have z2': "gather_array_vec False (mpl_false False unary_codec) 0
      (sender_ser_env MPI_SUCCESS MPI_SUCCESS)
      \<lparr>comm_rank = 1, comm_size = 3\<rparr> [2] 0 [7] 0 =
     (None, [7], [Gather_call [0] 1 0, Gatherv_call [] 0 0])"
    using z2 by (simp add: numeral_eq_Suc)
  have z5': "gather_array_ptr (mpl_false False unary_codec)
      (group_ser_env (peer_events (mpl_false False unary_codec)
         (sender_ser_env MPI_SUCCESS MPI_SUCCESS) 3 0 0 (\<lambda>k. [k + 1])))
      \<lparr>comm_rank = 0, comm_size = 3\<rparr> [1] 0 (Some [7]) 0 =
     (None, Some [7], [Gather_call [0] 1 0, Gatherv_call [] 0 0])"
    using z5 by simp
  show ?thesis using z0a z0b z1 z2' z4 z5' by (intro conjI)
qed



text \<open>
  Claim C6. The first step of the serialized \<^verbatim>\<open>gather_impl\<close> after encoding is the public
  \<^verbatim>\<open>gather(comm, int(oa.size()), asizes, root)\<close> at \<^verbatim>\<open>mpl::true_\<close>: the events of the
  serialized call start with the events of that call, and an error of that call is the
  error of the serialized call, the receive buffer untouched. That public call is the
  direct \<^verbatim>\<open>gather_impl\<close> on the one-element array holding the size: at a process other
  than the root the non-root one, the vector unchanged; at the root the root one on the
  vector resized to \<^verbatim>\<open>comm.size()\<close> (a communicator of size 0 would leave the vector
  without an element for \<^verbatim>\<open>&asizes[0]\<close>). When it completes at the root it has made one
  \<^verbatim>\<open>MPI_Gather\<close> call of count 1, and the size vector has one entry for each rank: the
  root's own size and the size each other rank sent.
\<close>

theorem size_exchange_is_gather:
  "(n \<le> length in_values \<longrightarrow>
      (\<exists>e0 asizes tr0 e p' tr rest.
         gather_scalar_vec nd mpl_true 0 (size_exchange env) comm
           (int_of_size_t (length (encoded_payload cd in_values n))) [] root = (e0, asizes, tr0) \<and>
         gather_impl_false nd cd env comm in_values n p root = (e, p', tr) \<and> tr = tr0 @ rest \<and>
         (e0 \<noteq> None \<longrightarrow> e = e0 \<and> p' = p \<and> rest = []))) \<and>
   (comm_rank comm \<noteq> root \<longrightarrow>
      gather_scalar_vec nd mpl_true dflt genv comm x v root =
        (case gather_impl_true_nonroot genv comm [x] 1 root of (e, tr) \<Rightarrow> (e, v, tr))) \<and>
   (comm_rank comm = root \<longrightarrow>
      gather_scalar_vec nd mpl_true dflt genv comm x v root =
        (if comm_size comm = 0 then (Some OutOfBounds, [], [])
         else case gather_impl_true_root genv comm [x] 1
                     (Some (resize dflt v (comm_size comm))) root of
           (e, q, tr) \<Rightarrow> (e, vector_after (resize dflt v (comm_size comm)) q, tr))) \<and>
   (comm_rank comm = root \<and>
    gather_scalar_vec nd mpl_true 0 genv comm y [] root = (None, sizes, tr1) \<longrightarrow>
      tr1 = [Gather_call [y] 1 root] \<and> length sizes = comm_size comm \<and>
      (\<forall>k. k < comm_size comm \<longrightarrow>
         (if k = root then sizes ! k = y
          else gather_peers genv k = Some ([sizes ! k], 1, root))))"
proof (intro conjI impI)
  assume "n \<le> length in_values"
  then have "\<not> length in_values < n" by simp
  then show "\<exists>e0 asizes tr0 e p' tr rest.
         gather_scalar_vec nd mpl_true 0 (size_exchange env) comm
           (int_of_size_t (length (encoded_payload cd in_values n))) [] root = (e0, asizes, tr0) \<and>
         gather_impl_false nd cd env comm in_values n p root = (e, p', tr) \<and> tr = tr0 @ rest \<and>
         (e0 \<noteq> None \<longrightarrow> e = e0 \<and> p' = p \<and> rest = [])"
    by (rule size_exchange_prefix)
next
  assume "comm_rank comm \<noteq> root"
  then show "gather_scalar_vec nd mpl_true dflt genv comm x v root =
        (case gather_impl_true_nonroot genv comm [x] 1 root of (e, tr) \<Rightarrow> (e, v, tr))"
    by (simp add: gather_scalar_vec_def gather_scalar_nonroot_def impl_select)
next
  assume "comm_rank comm = root"
  then show "gather_scalar_vec nd mpl_true dflt genv comm x v root =
        (if comm_size comm = 0 then (Some OutOfBounds, [], [])
         else case gather_impl_true_root genv comm [x] 1
                     (Some (resize dflt v (comm_size comm))) root of
           (e, q, tr) \<Rightarrow> (e, vector_after (resize dflt v (comm_size comm)) q, tr))"
    by (simp add: gather_scalar_vec_def gather_scalar_ptr_def impl_select front_address_resize
        resize_Nil Let_def)
next
  assume a: "comm_rank comm = root \<and>
    gather_scalar_vec nd mpl_true 0 genv comm y [] root = (None, sizes, tr1)"
  then have rk: "comm_rank comm = root"
    and run: "gather_scalar_vec nd mpl_true 0 genv comm y [] root = (None, sizes, tr1)"
    by simp_all
  show "tr1 = [Gather_call [y] 1 root]"
    using size_exchange_root_trace [OF rk run] by simp
  show "length sizes = comm_size comm"
    using size_vector_root [OF rk run] by simp
  show "\<forall>k. k < comm_size comm \<longrightarrow>
         (if k = root then sizes ! k = y
          else gather_peers genv k = Some ([sizes ! k], 1, root))"
    using size_vector_root [OF rk run] by simp
qed

theorem size_exchange_is_gather_witness:
  "(\<exists>rest. snd (snd (gather_impl_false False unary_codec
       (group_ser_env (peer_events (mpl_false False unary_codec)
          (sender_ser_env MPI_SUCCESS MPI_SUCCESS) 3 0 1 (\<lambda>k. [k + 1])))
       \<lparr>comm_rank = 0, comm_size = 3\<rparr> [1] 1 (Some [0, 0, 0]) 0)) =
     snd (snd (gather_scalar_vec False mpl_true 0
       (size_exchange (group_ser_env (peer_events (mpl_false False unary_codec)
          (sender_ser_env MPI_SUCCESS MPI_SUCCESS) 3 0 1 (\<lambda>k. [k + 1]))))
       \<lparr>comm_rank = 0, comm_size = 3\<rparr> 2 [] 0)) @ rest) \<and>
   gather_scalar_vec False mpl_true 0 (sender_gather_env MPI_SUCCESS)
       \<lparr>comm_rank = 1, comm_size = 3\<rparr> (3::int) [] 0 =
     (None, [], [Gather_call [3] 1 0]) \<and>
   gather_peers (size_exchange (group_ser_env (peer_events (mpl_false False unary_codec)
          (sender_ser_env MPI_SUCCESS MPI_SUCCESS) 3 0 1 (\<lambda>k. [k + 1])))) 2 =
     Some ([4], 1, 0)"
proof -
  let ?env = "group_ser_env (peer_events (mpl_false False unary_codec)
          (sender_ser_env MPI_SUCCESS MPI_SUCCESS) 3 0 1 (\<lambda>k. [k + 1]))"
  let ?c = "\<lparr>comm_rank = 0, comm_size = 3\<rparr>"
  have pay1: "encoded_payload unary_codec [1] 1 = [1, 0]"
    using sample_payload [of 1] by simp
  have sz: "int_of_size_t (length [1::byte, 0]) = 2"
    by (simp add: int_of_size_t_small INT_MAX_def)
  have n: "1 \<le> length [1::nat]" by simp
  have nr: "comm_rank \<lparr>comm_rank = 1, comm_size = 3\<rparr> \<noteq> (0::nat)" by simp
  have r: "comm_rank ?c = (0::nat) \<and>
      gather_scalar_vec False mpl_true 0 (size_exchange ?env) ?c 2 [] 0 =
        (None, [2, 3, 4], [Gather_call [2] (Suc 0) 0])"
    unfolding sample_sizes by simp
  note a = size_exchange_is_gather [where nd = False and cd = unary_codec and env = "?env"
      and comm = "?c" and in_values = "[1]" and n = 1 and p = "Some [0, 0, 0]" and root = 0,
      THEN conjunct1, rule_format, OF n, unfolded pay1 sz sample_sizes sample_run_impl]
  note b = size_exchange_is_gather [THEN conjunct2, THEN conjunct1, rule_format, OF nr,
      of False 0 "sender_gather_env MPI_SUCCESS" 3 "[]"]
  note c = size_exchange_is_gather [THEN conjunct2, THEN conjunct2, THEN conjunct2, rule_format,
      OF r, THEN conjunct2, THEN conjunct2, rule_format, of 2]
  have c1: "\<exists>rest. snd (snd (gather_impl_false False unary_codec ?env ?c [1] 1 (Some [0, 0, 0]) 0)) =
     snd (snd (gather_scalar_vec False mpl_true 0 (size_exchange ?env) ?c 2 [] 0)) @ rest"
    unfolding sample_sizes sample_run_impl snd_conv using a by auto
  have c2: "gather_scalar_vec False mpl_true 0 (sender_gather_env MPI_SUCCESS)
       \<lparr>comm_rank = 1, comm_size = 3\<rparr> (3::int) [] 0 = (None, [], [Gather_call [3] 1 0])"
    using b
    by (simp add: gather_impl_true_nonroot_def MPI_Gather_def sender_gather_env_def
        BOOST_MPI_CHECK_RESULT_def)
  have c3: "gather_peers (size_exchange ?env) 2 = Some ([4], 1, 0)"
    using c by simp
  show ?thesis using c1 c2 c3 by (intro conjI)
qed

end
